theory Spec2Isabelle
  imports Main "HOL-Library.Word" "HOL-Library.AList" "HOL-Library.List_Lexorder"
    "HOL-Library.Monad_Syntax"
begin

unbundle bit_operations_syntax

section \<open>Identifiers\<close>

type_synonym byte = "8 word"
type_synonym uint16 = "16 word"
type_synonym uint32 = "32 word"

text \<open>
  Modelled from the spec: the identifier type, which the sources under study use but do
  not declare. An identifier is either a 16-bit ordinal (\<open>ID\<close>) or a name (\<open>Name\<close>).
  A name is a Go string holding Unicode text; it is represented by its sequence of code
  points (what \<open>[]rune(n)\<close> yields for valid UTF-8). Go compares strings byte by byte,
  which on valid UTF-8 is the lexicographic order of the code points.
\<close>

type_synonym rune = nat

datatype Identifier = ID uint16 | Name "rune list"

fun is_ID :: "Identifier \<Rightarrow> bool" where
  "is_ID (ID _) = True"
| "is_ID (Name _) = False"

fun is_Name :: "Identifier \<Rightarrow> bool" where
  "is_Name (Name _) = True"
| "is_Name (ID _) = False"

text \<open>
  Modelled from the spec: \<open>lessThan\<close>, the comparison the sorting code calls on
  identifiers, absent from the sources. All names sort before all ordinals; names compare
  lexicographically ascending; ordinals compare numerically ascending.
\<close>

fun lessThan :: "Identifier \<Rightarrow> Identifier \<Rightarrow> bool" where
  "lessThan (ID a) (ID b) = (a < b)"
| "lessThan (ID a) (Name m) = False"
| "lessThan (Name n) (Name m) = (n < m)"
| "lessThan (Name n) (ID b) = True"

instantiation Identifier :: linorder
begin

definition less_Identifier :: "Identifier \<Rightarrow> Identifier \<Rightarrow> bool" where
  "less_Identifier a b = lessThan a b"

definition less_eq_Identifier :: "Identifier \<Rightarrow> Identifier \<Rightarrow> bool" where
  "less_eq_Identifier a b = (lessThan a b \<or> a = b)"

instance
proof
  fix x y z :: Identifier
  show "(x < y) = (x \<le> y \<and> \<not> y \<le> x)"
    by (cases x; cases y) (auto simp: less_Identifier_def less_eq_Identifier_def)
  show "x \<le> x"
    by (simp add: less_eq_Identifier_def)
  show "x \<le> y \<Longrightarrow> y \<le> z \<Longrightarrow> x \<le> z"
    by (cases x; cases y; cases z) (auto simp: less_eq_Identifier_def)
  show "x \<le> y \<Longrightarrow> y \<le> x \<Longrightarrow> x = y"
    by (cases x; cases y) (auto simp: less_eq_Identifier_def)
  show "x \<le> y \<or> y \<le> x"
    by (cases x; cases y) (auto simp: less_eq_Identifier_def)
qed

end

datatype error =
    ErrZeroID
  | ErrEmptyName
  | ErrRead
  | ErrInvalidResDir
  | ErrDataEntryOutOfBounds
  | ErrNoResources
  | Panic

text \<open>
  Modelled from the spec: \<open>checkIdentifier\<close>, called by \<open>Set\<close> and absent from the
  sources. A zero-valued ordinal or an empty name is rejected.
\<close>

fun checkIdentifier :: "Identifier \<Rightarrow> error option" where
  "checkIdentifier (ID i) = (if i = 0 then Some ErrZeroID else None)"
| "checkIdentifier (Name n) = (if n = [] then Some ErrEmptyName else None)"

definition RT_CURSOR :: Identifier where "RT_CURSOR = ID 1"
definition RT_ICON :: Identifier where "RT_ICON = ID 3"

section \<open>The standard library's sorting and searching\<close>

text \<open>
  \<open>sort.Slice\<close> with the comparison \<open>lessThan\<close> is the library's insertion sort
  on the linear order just declared: under a linear order whose equivalent elements are
  equal, every correct sorting routine returns the same slice.
\<close>

definition sort_Slice :: "'a::linorder list \<Rightarrow> 'a list" where
  "sort_Slice xs = sort xs"

text \<open>\<open>sort.Search(n, f)\<close>: the binary search of Go's standard library.\<close>

function sort_Search_loop :: "(nat \<Rightarrow> bool) \<Rightarrow> nat \<Rightarrow> nat \<Rightarrow> nat" where
  "sort_Search_loop f i j =
     (if i < j then
        (let h = (i + j) div 2 in
         if \<not> f h then sort_Search_loop f (h + 1) j else sort_Search_loop f i h)
      else i)"
  by pat_completeness auto
termination
  by (relation "measure (\<lambda>(f, i, j). j - i)") auto

declare sort_Search_loop.simps [simp del]

definition sort_Search :: "nat \<Rightarrow> (nat \<Rightarrow> bool) \<Rightarrow> nat" where
  "sort_Search n f = sort_Search_loop f 0 n"

section \<open>The resource set\<close>

record DataEntry =
  de_Data :: "byte list"

text \<open>
  A Go map is an association list with distinct keys; \<open>len\<close> is its length, a lookup is
  \<open>map_of\<close>, an assignment \<open>AList.update\<close>, \<open>delete\<close> is \<open>AList.delete\<close>. The
  iteration order of a Go map is unspecified: it is the order of the list here. A cached
  key slice is \<open>None\<close> when it is \<open>nil\<close>.
\<close>

record ResourceEntry =
  re_Data :: "(uint16 \<times> DataEntry) list"
  re_OrderedKeys :: "uint16 list option"

record TypeEntry =
  Resources :: "(Identifier \<times> ResourceEntry) list"
  te_OrderedKeys :: "Identifier list option"
  NamesCount :: nat

record ResourceSet =
  Types :: "(Identifier \<times> TypeEntry) list"
  lastIconID :: uint16
  lastCursorID :: uint16

definition empty_ResourceSet :: ResourceSet where
  "empty_ResourceSet = \<lparr>Types = [], lastIconID = 0, lastCursorID = 0\<rparr>"

definition ResourceSet_delete ::
  "ResourceSet \<Rightarrow> Identifier \<Rightarrow> Identifier \<Rightarrow> uint16 \<Rightarrow> ResourceSet" where
  "ResourceSet_delete rs typeID resID langID =
     (case map_of (Types rs) typeID of
        None \<Rightarrow> rs
      | Some te \<Rightarrow>
         (case map_of (Resources te) resID of
            None \<Rightarrow> rs
          | Some re \<Rightarrow>
             (let re' = re\<lparr>re_Data := AList.delete langID (re_Data re), re_OrderedKeys := None\<rparr>
              in if length (re_Data re') > 0
                 then rs\<lparr>Types := AList.update typeID
                        (te\<lparr>Resources := AList.update resID re' (Resources te)\<rparr>) (Types rs)\<rparr>
                 else
                  (let te' = te\<lparr>Resources := AList.delete resID (Resources te),
                                te_OrderedKeys := None\<rparr>
                   in if length (Resources te') > 0
                      then rs\<lparr>Types := AList.update typeID te' (Types rs)\<rparr>
                      else rs\<lparr>Types := AList.delete typeID (Types rs)\<rparr>))))"

text \<open>The two counters follow the highest ordinal seen under the icon and cursor types.\<close>

definition bump_counters :: "ResourceSet \<Rightarrow> Identifier \<Rightarrow> Identifier \<Rightarrow> ResourceSet" where
  "bump_counters rs typeID resID =
     (if typeID = RT_ICON then
        (case resID of
           ID i \<Rightarrow> if lastIconID rs < i then rs\<lparr>lastIconID := i\<rparr> else rs
         | Name _ \<Rightarrow> rs)
      else if typeID = RT_CURSOR then
        (case resID of
           ID i \<Rightarrow> if lastCursorID rs < i then rs\<lparr>lastCursorID := i\<rparr> else rs
         | Name _ \<Rightarrow> rs)
      else rs)"

text \<open>
  \<open>set\<close>: the payload is \<open>None\<close> for a nil slice, which deletes. Entries are pointers
  in the source, so a changed entry is written back into its map here.
\<close>

definition ResourceSet_set ::
  "ResourceSet \<Rightarrow> Identifier \<Rightarrow> Identifier \<Rightarrow> uint16 \<Rightarrow> byte list option \<Rightarrow> ResourceSet" where
  "ResourceSet_set rs typeID resID langID data =
     (case data of
        None \<Rightarrow> ResourceSet_delete rs typeID resID langID
      | Some d \<Rightarrow>
         (let te = (case map_of (Types rs) typeID of
                      None \<Rightarrow> \<lparr>Resources = [], te_OrderedKeys = None, NamesCount = 0\<rparr>
                    | Some te \<Rightarrow> te);
              te1 = (case map_of (Resources te) resID of
                      None \<Rightarrow> te\<lparr>te_OrderedKeys := None\<rparr>
                    | Some _ \<Rightarrow> te);
              re = (case map_of (Resources te) resID of
                      None \<Rightarrow> \<lparr>re_Data = [], re_OrderedKeys = None\<rparr>
                    | Some re \<Rightarrow> re);
              rs1 = bump_counters rs typeID resID;
              re1 = (case map_of (re_Data re) langID of
                      None \<Rightarrow> re\<lparr>re_OrderedKeys := None\<rparr>
                    | Some _ \<Rightarrow> re);
              de = (case map_of (re_Data re) langID of
                      None \<Rightarrow> \<lparr>de_Data = []\<rparr>
                    | Some de \<Rightarrow> de);
              re2 = re1\<lparr>re_Data := AList.update langID (de\<lparr>de_Data := d\<rparr>) (re_Data re1)\<rparr>;
              te2 = te1\<lparr>Resources := AList.update resID re2 (Resources te1)\<rparr>
          in rs1\<lparr>Types := AList.update typeID te2 (Types rs1)\<rparr>))"

text \<open>\<open>Set\<close> returns the set after the call and the error, if any.\<close>

definition ResourceSet_Set ::
  "ResourceSet \<Rightarrow> Identifier \<Rightarrow> Identifier \<Rightarrow> uint16 \<Rightarrow> byte list option
     \<Rightarrow> ResourceSet \<times> error option" where
  "ResourceSet_Set rs typeID resID langID data =
     (case checkIdentifier resID of
        Some err \<Rightarrow> (rs, Some err)
      | None \<Rightarrow>
         (case checkIdentifier typeID of
            Some err \<Rightarrow> (rs, Some err)
          | None \<Rightarrow> (ResourceSet_set rs typeID resID langID data, None)))"

definition ResourceSet_Get ::
  "ResourceSet \<Rightarrow> Identifier \<Rightarrow> Identifier \<Rightarrow> uint16 \<Rightarrow> byte list option" where
  "ResourceSet_Get rs typeID resID langID =
     (case map_of (Types rs) typeID of
        None \<Rightarrow> None
      | Some te \<Rightarrow>
         (case map_of (Resources te) resID of
            None \<Rightarrow> None
          | Some re \<Rightarrow>
             (case map_of (re_Data re) langID of
                None \<Rightarrow> None
              | Some de \<Rightarrow> Some (de_Data de))))"

section \<open>Ordering caches\<close>

definition ResourceEntry_order :: "ResourceEntry \<Rightarrow> ResourceEntry" where
  "ResourceEntry_order re =
     (case re_OrderedKeys re of
        Some _ \<Rightarrow> re
      | None \<Rightarrow> re\<lparr>re_OrderedKeys := Some (sort_Slice (map fst (re_Data re)))\<rparr>)"

definition TypeEntry_Order :: "TypeEntry \<Rightarrow> TypeEntry" where
  "TypeEntry_Order te =
     (case te_OrderedKeys te of
        Some _ \<Rightarrow> te
      | None \<Rightarrow>
         (let keys = sort_Slice (map fst (Resources te))
          in te\<lparr>Resources := map (\<lambda>(ident, re). (ident, ResourceEntry_order re)) (Resources te),
                te_OrderedKeys := Some keys,
                NamesCount := sort_Search (length keys) (\<lambda>i. is_ID (keys ! i))\<rparr>))"


text \<open>\<open>order\<close> fills the state's key order and orders every type entry.\<close>

record state =
  offset :: nat
  relocAddr :: "nat list"
  nameOffset :: "(rune list \<times> nat) list"
  namesData :: "uint16 list"
  orderedKeys :: "Identifier list"
  namesCount :: nat

definition empty_state :: state where
  "empty_state = \<lparr>offset = 0, relocAddr = [], nameOffset = [], namesData = [],
     orderedKeys = [], namesCount = 0\<rparr>"

definition ResourceSet_order :: "ResourceSet \<Rightarrow> state \<Rightarrow> ResourceSet \<times> state" where
  "ResourceSet_order rs s =
     (let keys = sort_Slice (map fst (Types rs))
      in (rs\<lparr>Types := map (\<lambda>(ident, te). (ident, TypeEntry_Order te)) (Types rs)\<rparr>,
          s\<lparr>orderedKeys := keys,
            namesCount := sort_Search (length keys) (\<lambda>i. is_ID (keys ! i))\<rparr>))"

section \<open>Sizes and alignment\<close>

definition dataAlignment :: nat where "dataAlignment = 8"
definition sizeOfDirTable :: nat where "sizeOfDirTable = 16"
definition sizeOfDirEntry :: nat where "sizeOfDirEntry = 8"
definition sizeOfDataEntry :: nat where "sizeOfDataEntry = 16"

text \<open>
  Offsets and lengths are Go \<open>int\<close>s that are never negative and stay far below
  \<open>2 ^ 63\<close>; they are natural numbers here. \<open>x &^ 7\<close> is computed on the integers.
\<close>

definition alignData :: "nat \<Rightarrow> nat" where
  "alignData off =
     nat ((int off + int dataAlignment - 1) AND NOT (int dataAlignment - 1))"

definition paddedDataSize :: "DataEntry \<Rightarrow> nat" where
  "paddedDataSize de = alignData (length (de_Data de))"

definition TypeEntry_size :: "TypeEntry \<Rightarrow> nat" where
  "TypeEntry_size te = sizeOfDirTable + length (Resources te) * sizeOfDirEntry"

definition ResourceEntry_size :: "ResourceEntry \<Rightarrow> nat" where
  "ResourceEntry_size re = sizeOfDirTable + length (re_Data re) * sizeOfDirEntry"

definition dirSize :: "ResourceSet \<Rightarrow> nat" where
  "dirSize rs =
     foldl (\<lambda>sz (ident, te).
        foldl (\<lambda>sz (ident, re). sz + (ResourceEntry_size re + length (re_Data re) * sizeOfDataEntry))
          (sz + TypeEntry_size te) (Resources te))
       (sizeOfDirTable + length (Types rs) * sizeOfDirEntry) (Types rs)"

definition numDataEntries :: "ResourceSet \<Rightarrow> nat" where
  "numDataEntries rs =
     foldl (\<lambda>n (ident, te). foldl (\<lambda>n (ident, re). n + length (re_Data re)) n (Resources te))
       0 (Types rs)"

section \<open>Little-endian fields\<close>

definition le16 :: "uint16 \<Rightarrow> byte list" where
  "le16 w = [ucast w, ucast (drop_bit 8 w)]"

definition le32 :: "uint32 \<Rightarrow> byte list" where
  "le32 w = [ucast w, ucast (drop_bit 8 w), ucast (drop_bit 16 w), ucast (drop_bit 24 w)]"

fun get_u16 :: "byte list \<Rightarrow> uint16" where
  "get_u16 (b0 # b1 # _) = ucast b0 OR push_bit 8 (ucast b1)"
| "get_u16 _ = 0"

fun get_u32 :: "byte list \<Rightarrow> uint32" where
  "get_u32 (b0 # b1 # b2 # b3 # _) =
     ucast b0 OR push_bit 8 (ucast b1) OR push_bit 16 (ucast b2) OR push_bit 24 (ucast b3)"
| "get_u32 _ = 0"

fun get_u16s :: "byte list \<Rightarrow> uint16 list" where
  "get_u16s (b0 # b1 # bs) = get_u16 [b0, b1] # get_u16s bs"
| "get_u16s _ = []"

section \<open>UTF-16, as Go's \<open>unicode/utf16\<close> computes it\<close>

definition utf16_EncodeRune :: "rune \<Rightarrow> uint16 list" where
  "utf16_EncodeRune v =
     (if v < 0xD800 \<or> (0xE000 \<le> v \<and> v < 0x10000) then [word_of_nat v]
      else if 0x10000 \<le> v \<and> v \<le> 0x10FFFF then
        [word_of_nat (0xD800 + ((v - 0x10000) div 1024) mod 1024),
         word_of_nat (0xDC00 + (v - 0x10000) mod 1024)]
      else [0xFFFD])"

definition utf16_Encode :: "rune list \<Rightarrow> uint16 list" where
  "utf16_Encode s = concat (map utf16_EncodeRune s)"


section \<open>The layout planner\<close>

text \<open>
  A panic of the source (a failed type assertion, a nil entry, a slice bound out of range)
  is the value \<open>None\<close> in the functions of the encoder.
\<close>

fun the_Name :: "Identifier \<Rightarrow> rune list option" where
  "the_Name (Name n) = Some n"
| "the_Name (ID _) = None"

fun the_ID :: "Identifier \<Rightarrow> uint16 option" where
  "the_ID (ID i) = Some i"
| "the_ID (Name _) = None"

definition keys_of :: "'a list option \<Rightarrow> 'a list" where
  "keys_of ko = (case ko of None \<Rightarrow> [] | Some ks \<Rightarrow> ks)"

definition slice_to :: "'a list \<Rightarrow> nat \<Rightarrow> 'a list option" where
  "slice_to xs n = (if n \<le> length xs then Some (take n xs) else None)"

definition slice_from :: "'a list \<Rightarrow> nat \<Rightarrow> 'a list option" where
  "slice_from xs n = (if n \<le> length xs then Some (drop n xs) else None)"

definition nameOffset_get :: "state \<Rightarrow> rune list \<Rightarrow> nat" where
  "nameOffset_get s n = (case map_of (nameOffset s) n of None \<Rightarrow> 0 | Some off \<Rightarrow> off)"

definition entry_names :: "Identifier \<times> TypeEntry \<Rightarrow> rune list list option" where
  "entry_names p =
     (case p of (ident, te) \<Rightarrow>
        do {
          ks \<leftarrow> slice_to (keys_of (te_OrderedKeys te)) (NamesCount te);
          ns \<leftarrow> those (map the_Name ks);
          Some ((case ident of Name n \<Rightarrow> [n] | ID _ \<Rightarrow> []) @ ns)
        })"

fun names_loop :: "rune list list \<Rightarrow> nat \<Rightarrow> state \<Rightarrow> state" where
  "names_loop [] off s = s"
| "names_loop (n # ns) off s =
     (let u = utf16_Encode n
      in names_loop ns (off + (length u + 1) * 2)
           (s\<lparr>nameOffset := AList.update n off (nameOffset s),
              namesData := namesData s @ [word_of_nat (length u)] @ u\<rparr>))"

definition ResourceSet_prepare :: "ResourceSet \<Rightarrow> (ResourceSet \<times> state) option" where
  "ResourceSet_prepare rs =
     (case ResourceSet_order rs empty_state of (rs1, s) \<Rightarrow>
        do {
          nss \<leftarrow> those (map entry_names (Types rs1));
          let names = sort (remdups (concat nss));
          let s1 = names_loop names (dirSize rs1) s;
          let sz = length (namesData s1) * 2;
          Some (rs1, s1\<lparr>namesData := namesData s1 @ replicate ((alignData sz - sz) div 2) 0\<rparr>)
        })"

section \<open>The encoder\<close>

definition subdirectoryOffset :: uint32 where "subdirectoryOffset = 0x80000000"
definition nameOffset_bit :: uint32 where "nameOffset_bit = 0x80000000"

definition writeDirectoryTable :: "nat \<Rightarrow> nat \<Rightarrow> byte list" where
  "writeDirectoryTable numNameEntries numIDEntries =
     le32 0 @ le32 0 @ le16 0 @ le16 0
       @ le16 (word_of_nat numNameEntries) @ le16 (word_of_nat numIDEntries)"

definition writeDirectoryEntry :: "nat \<Rightarrow> nat \<Rightarrow> bool \<Rightarrow> bool \<Rightarrow> byte list" where
  "writeDirectoryEntry ident off isName isSubDir =
     (let e_ID = (word_of_nat ident :: uint32);
          e_Offset = (word_of_nat off :: uint32);
          e_Offset1 = (if isSubDir then e_Offset OR subdirectoryOffset else e_Offset);
          e_ID1 = (if isName then e_ID OR nameOffset_bit else e_ID)
      in le32 e_ID1 @ le32 e_Offset1)"

definition writeDataEntry :: "nat \<Rightarrow> nat \<Rightarrow> byte list" where
  "writeDataEntry off dataSize =
     le32 (word_of_nat off) @ le32 (word_of_nat dataSize) @ le32 0 @ le32 0"

text \<open>
  The two loops over the name keys and the ordinal keys of a directory, shared by
  \<open>writeTypeDir\<close> and \<open>TypeEntry.write\<close>: \<open>sz\<close> gives the size of the entry a key
  leads to (\<open>None\<close> when the key is not in the map: a nil entry).
\<close>

fun write_entries ::
  "(Identifier \<Rightarrow> nat option) \<Rightarrow> bool \<Rightarrow> Identifier list \<Rightarrow> state \<Rightarrow> (byte list \<times> state) option"
  where
  "write_entries sz isName [] s = Some ([], s)"
| "write_entries sz isName (ident # idents) s =
     do {
       i \<leftarrow> (if isName then map_option (nameOffset_get s) (the_Name ident)
              else map_option unat (the_ID ident));
       n \<leftarrow> sz ident;
       (bs, s1) \<leftarrow> write_entries sz isName idents (s\<lparr>offset := offset s + n\<rparr>);
       Some (writeDirectoryEntry i (offset s) isName True @ bs, s1)
     }"

definition ResourceSet_writeTypeDir :: "ResourceSet \<Rightarrow> state \<Rightarrow> (byte list \<times> state) option" where
  "ResourceSet_writeTypeDir rs s =
     do {
       let tb = writeDirectoryTable (namesCount s) (length (orderedKeys s) - namesCount s);
       let s0 = s\<lparr>offset := offset s + (sizeOfDirTable + length (orderedKeys s) * sizeOfDirEntry)\<rparr>;
       names \<leftarrow> slice_to (orderedKeys s) (namesCount s);
       (b1, s1) \<leftarrow> write_entries (\<lambda>k. map_option TypeEntry_size (map_of (Types rs) k)) True names s0;
       ids \<leftarrow> slice_from (orderedKeys s) (namesCount s);
       (b2, s2) \<leftarrow> write_entries (\<lambda>k. map_option TypeEntry_size (map_of (Types rs) k)) False ids s1;
       Some (tb @ b1 @ b2, s2)
     }"

definition TypeEntry_write :: "TypeEntry \<Rightarrow> state \<Rightarrow> (byte list \<times> state) option" where
  "TypeEntry_write te s =
     do {
       let keys = keys_of (te_OrderedKeys te);
       let tb = writeDirectoryTable (NamesCount te) (length keys - NamesCount te);
       names \<leftarrow> slice_to keys (NamesCount te);
       (b1, s1) \<leftarrow> write_entries (\<lambda>k. map_option ResourceEntry_size (map_of (Resources te) k)) True names s;
       ids \<leftarrow> slice_from keys (NamesCount te);
       (b2, s2) \<leftarrow> write_entries (\<lambda>k. map_option ResourceEntry_size (map_of (Resources te) k)) False ids s1;
       Some (tb @ b1 @ b2, s2)
     }"

fun ResourceEntry_write_loop :: "uint16 list \<Rightarrow> state \<Rightarrow> byte list \<times> state" where
  "ResourceEntry_write_loop [] s = ([], s)"
| "ResourceEntry_write_loop (lcid # lcids) s =
     (case ResourceEntry_write_loop lcids
             (s\<lparr>relocAddr := relocAddr s @ [offset s], offset := offset s + sizeOfDataEntry\<rparr>) of
        (bs, s1) \<Rightarrow> (writeDirectoryEntry (unat lcid) (offset s) False False @ bs, s1))"

definition ResourceEntry_write :: "ResourceEntry \<Rightarrow> state \<Rightarrow> byte list \<times> state" where
  "ResourceEntry_write re s =
     (case ResourceEntry_write_loop (keys_of (re_OrderedKeys re)) s of
        (bs, s1) \<Rightarrow> (writeDirectoryTable 0 (length (re_Data re)) @ bs, s1))"

definition DataEntry_write :: "DataEntry \<Rightarrow> state \<Rightarrow> byte list \<times> state" where
  "DataEntry_write de s =
     (writeDataEntry (offset s) (length (de_Data de)), s\<lparr>offset := offset s + paddedDataSize de\<rparr>)"

definition DataEntry_writeData :: "DataEntry \<Rightarrow> byte list" where
  "DataEntry_writeData de =
     de_Data de @ take (paddedDataSize de - length (de_Data de)) (replicate dataAlignment 0)"

text \<open>The sweeps over the ordered tree, one per layer of the output.\<close>

fun ResourceSet_writeResDirs ::
  "ResourceSet \<Rightarrow> Identifier list \<Rightarrow> state \<Rightarrow> (byte list \<times> state) option" where
  "ResourceSet_writeResDirs rs [] s = Some ([], s)"
| "ResourceSet_writeResDirs rs (tid # tids) s =
     do {
       te \<leftarrow> map_of (Types rs) tid;
       (b, s1) \<leftarrow> TypeEntry_write te s;
       (bs, s2) \<leftarrow> ResourceSet_writeResDirs rs tids s1;
       Some (b @ bs, s2)
     }"

fun writeLangDirs_type ::
  "TypeEntry \<Rightarrow> Identifier list \<Rightarrow> state \<Rightarrow> (byte list \<times> state) option" where
  "writeLangDirs_type te [] s = Some ([], s)"
| "writeLangDirs_type te (ident # idents) s =
     do {
       re \<leftarrow> map_of (Resources te) ident;
       (b, s1) \<leftarrow> Some (ResourceEntry_write re s);
       (bs, s2) \<leftarrow> writeLangDirs_type te idents s1;
       Some (b @ bs, s2)
     }"

fun ResourceSet_writeLangDirs ::
  "ResourceSet \<Rightarrow> Identifier list \<Rightarrow> state \<Rightarrow> (byte list \<times> state) option" where
  "ResourceSet_writeLangDirs rs [] s = Some ([], s)"
| "ResourceSet_writeLangDirs rs (tid # tids) s =
     do {
       te \<leftarrow> map_of (Types rs) tid;
       (b, s1) \<leftarrow> writeLangDirs_type te (keys_of (te_OrderedKeys te)) s;
       (bs, s2) \<leftarrow> ResourceSet_writeLangDirs rs tids s1;
       Some (b @ bs, s2)
     }"

fun writeDataIndex_res ::
  "ResourceEntry \<Rightarrow> uint16 list \<Rightarrow> state \<Rightarrow> (byte list \<times> state) option" where
  "writeDataIndex_res re [] s = Some ([], s)"
| "writeDataIndex_res re (lcid # lcids) s =
     do {
       de \<leftarrow> map_of (re_Data re) lcid;
       (b, s1) \<leftarrow> Some (DataEntry_write de s);
       (bs, s2) \<leftarrow> writeDataIndex_res re lcids s1;
       Some (b @ bs, s2)
     }"

fun writeDataIndex_type ::
  "TypeEntry \<Rightarrow> Identifier list \<Rightarrow> state \<Rightarrow> (byte list \<times> state) option" where
  "writeDataIndex_type te [] s = Some ([], s)"
| "writeDataIndex_type te (rid # rids) s =
     do {
       re \<leftarrow> map_of (Resources te) rid;
       (b, s1) \<leftarrow> writeDataIndex_res re (keys_of (re_OrderedKeys re)) s;
       (bs, s2) \<leftarrow> writeDataIndex_type te rids s1;
       Some (b @ bs, s2)
     }"

fun ResourceSet_writeDataIndex ::
  "ResourceSet \<Rightarrow> Identifier list \<Rightarrow> state \<Rightarrow> (byte list \<times> state) option" where
  "ResourceSet_writeDataIndex rs [] s = Some ([], s)"
| "ResourceSet_writeDataIndex rs (tid # tids) s =
     do {
       te \<leftarrow> map_of (Types rs) tid;
       (b, s1) \<leftarrow> writeDataIndex_type te (keys_of (te_OrderedKeys te)) s;
       (bs, s2) \<leftarrow> ResourceSet_writeDataIndex rs tids s1;
       Some (b @ bs, s2)
     }"

fun writeData_res :: "ResourceEntry \<Rightarrow> uint16 list \<Rightarrow> byte list option" where
  "writeData_res re [] = Some []"
| "writeData_res re (lcid # lcids) =
     do {
       de \<leftarrow> map_of (re_Data re) lcid;
       bs \<leftarrow> writeData_res re lcids;
       Some (DataEntry_writeData de @ bs)
     }"

fun writeData_type :: "TypeEntry \<Rightarrow> Identifier list \<Rightarrow> byte list option" where
  "writeData_type te [] = Some []"
| "writeData_type te (rid # rids) =
     do {
       re \<leftarrow> map_of (Resources te) rid;
       b \<leftarrow> writeData_res re (keys_of (re_OrderedKeys re));
       bs \<leftarrow> writeData_type te rids;
       Some (b @ bs)
     }"

fun ResourceSet_writeData :: "ResourceSet \<Rightarrow> Identifier list \<Rightarrow> byte list option" where
  "ResourceSet_writeData rs [] = Some []"
| "ResourceSet_writeData rs (tid # tids) =
     do {
       te \<leftarrow> map_of (Types rs) tid;
       b \<leftarrow> writeData_type te (keys_of (te_OrderedKeys te));
       bs \<leftarrow> ResourceSet_writeData rs tids;
       Some (b @ bs)
     }"

text \<open>
  \<open>write\<close> returns the bytes written, the relocation addresses and the set with the
  order caches that \<open>prepare\<close> filled. The writer is a buffer, which never fails.
\<close>

definition ResourceSet_write :: "ResourceSet \<Rightarrow> (byte list \<times> nat list \<times> ResourceSet) option" where
  "ResourceSet_write rs =
     do {
       (rs1, s) \<leftarrow> ResourceSet_prepare rs;
       (b1, s1) \<leftarrow> ResourceSet_writeTypeDir rs1 s;
       (b2, s2) \<leftarrow> ResourceSet_writeResDirs rs1 (orderedKeys s1) s1;
       (b3, s3) \<leftarrow> ResourceSet_writeLangDirs rs1 (orderedKeys s2) s2;
       let s4 = s3\<lparr>offset := offset s3 + length (namesData s3) * 2\<rparr>;
       (b4, s5) \<leftarrow> ResourceSet_writeDataIndex rs1 (orderedKeys s4) s4;
       let b5 = concat (map le16 (namesData s5));
       b6 \<leftarrow> ResourceSet_writeData rs1 (orderedKeys s5);
       Some (b1 @ b2 @ b3 @ b4 @ b5 @ b6, relocAddr s5, rs1)
     }"

section \<open>The decoder\<close>


text \<open>
  A directory entry as the walk sees it. The root is the zero value, whose identifier is
  nil in the source and never inspected; it is \<open>ID 0\<close> here. The field \<open>path\<close> is never
  written nor read.
\<close>

record dirEntry =
  ident :: Identifier
  entry_offset :: nat
  leaf :: bool















section \<open>Properties stated about the resource set\<close>

text \<open>No type entry has an empty resource map, no resource entry an empty language map.\<close>

definition no_empty_nodes :: "ResourceSet \<Rightarrow> bool" where
  "no_empty_nodes rs =
     (\<forall>(t, te) \<in> set (Types rs).
        Resources te \<noteq> [] \<and> (\<forall>(r, re) \<in> set (Resources te). re_Data re \<noteq> []))"

text \<open>A set holding one icon, used to instantiate the theorems below.\<close>

definition one_icon :: ResourceSet where
  "one_icon = fst (ResourceSet_Set empty_ResourceSet (ID 3) (ID 1) 0 (Some [1, 2, 3]))"

text \<open>
  The maps of a resource set have distinct keys at every level, as Go maps have.
\<close>

definition wf_ResourceSet :: "ResourceSet \<Rightarrow> bool" where
  "wf_ResourceSet rs =
     (distinct (map fst (Types rs))
      \<and> (\<forall>(t, te) \<in> set (Types rs).
            distinct (map fst (Resources te))
            \<and> (\<forall>(r, re) \<in> set (Resources te). distinct (map fst (re_Data re)))))"

text \<open>
  A cached key slice that is not nil lists exactly the keys of its map, in the order of
  the identifiers; the cached count of names is the number of leading names.
\<close>

definition re_cache_ok :: "ResourceEntry \<Rightarrow> bool" where
  "re_cache_ok re =
     (case re_OrderedKeys re of
        None \<Rightarrow> True
      | Some ks \<Rightarrow> sorted ks \<and> distinct ks \<and> set ks = fst ` set (re_Data re))"

definition te_cache_ok :: "TypeEntry \<Rightarrow> bool" where
  "te_cache_ok te =
     (case te_OrderedKeys te of
        None \<Rightarrow> True
      | Some ks \<Rightarrow>
          sorted ks \<and> distinct ks \<and> set ks = fst ` set (Resources te)
          \<and> NamesCount te = length (takeWhile is_Name ks))"

definition caches_ok :: "ResourceSet \<Rightarrow> bool" where
  "caches_ok rs =
     (\<forall>(t, te) \<in> set (Types rs).
        te_cache_ok te \<and> (\<forall>(r, re) \<in> set (Resources te). re_cache_ok re))"

text \<open>The cached slices and counts of a set, without the payloads.\<close>

definition cache_view ::
  "ResourceSet \<Rightarrow> (Identifier \<times> Identifier list option \<times> nat
      \<times> (Identifier \<times> uint16 list option) list) list" where
  "cache_view rs =
     map (\<lambda>(t, te). (t, te_OrderedKeys te, NamesCount te,
            map (\<lambda>(r, re). (r, re_OrderedKeys re)) (Resources te))) (Types rs)"

text \<open>
  The calls that change a resource set or its caches: \<open>Set\<close>; the ordering of the whole
  set that \<open>Walk\<close> and \<open>write\<close> start with; the ordering of one type entry by
  \<open>WalkType\<close>; the ordering of one resource entry by \<open>firstLang\<close>.
\<close>

datatype operation =
    OpSet Identifier Identifier uint16 "byte list option"
  | OpOrder
  | OpOrderType Identifier
  | OpOrderLang Identifier Identifier

definition WalkType_order :: "ResourceSet \<Rightarrow> Identifier \<Rightarrow> ResourceSet" where
  "WalkType_order rs typeID =
     (case map_of (Types rs) typeID of
        None \<Rightarrow> rs
      | Some te \<Rightarrow> rs\<lparr>Types := AList.update typeID (TypeEntry_Order te) (Types rs)\<rparr>)"

definition firstLang_order :: "ResourceSet \<Rightarrow> Identifier \<Rightarrow> Identifier \<Rightarrow> ResourceSet" where
  "firstLang_order rs typeID resID =
     (case map_of (Types rs) typeID of
        None \<Rightarrow> rs
      | Some te \<Rightarrow>
         (case map_of (Resources te) resID of
            None \<Rightarrow> rs
          | Some re \<Rightarrow>
             if length (re_Data re) = 0 then rs
             else rs\<lparr>Types := AList.update typeID
                    (te\<lparr>Resources := AList.update resID (ResourceEntry_order re) (Resources te)\<rparr>)
                    (Types rs)\<rparr>))"

fun apply_operation :: "ResourceSet \<Rightarrow> operation \<Rightarrow> ResourceSet" where
  "apply_operation rs (OpSet t r l d) = fst (ResourceSet_Set rs t r l d)"
| "apply_operation rs OpOrder = fst (ResourceSet_order rs empty_state)"
| "apply_operation rs (OpOrderType t) = WalkType_order rs t"
| "apply_operation rs (OpOrderLang t r) = firstLang_order rs t r"

definition run_operations :: "operation list \<Rightarrow> ResourceSet" where
  "run_operations ops = foldl apply_operation empty_ResourceSet ops"

text \<open>
  What \<open>set\<close> does to one resource entry and to one type entry, for the proofs.
\<close>

definition re_put :: "ResourceEntry \<Rightarrow> uint16 \<Rightarrow> byte list \<Rightarrow> ResourceEntry" where
  "re_put re l d =
     (case map_of (re_Data re) l of
        None \<Rightarrow> re\<lparr>re_OrderedKeys := None, re_Data := AList.update l \<lparr>de_Data = d\<rparr> (re_Data re)\<rparr>
      | Some de \<Rightarrow> re\<lparr>re_Data := AList.update l (de\<lparr>de_Data := d\<rparr>) (re_Data re)\<rparr>)"

definition te_put :: "TypeEntry \<Rightarrow> Identifier \<Rightarrow> uint16 \<Rightarrow> byte list \<Rightarrow> TypeEntry" where
  "te_put te r l d =
     (case map_of (Resources te) r of
        None \<Rightarrow> te\<lparr>te_OrderedKeys := None,
                   Resources := AList.update r (re_put \<lparr>re_Data = [], re_OrderedKeys = None\<rparr> l d)
                        (Resources te)\<rparr>
      | Some re \<Rightarrow> te\<lparr>Resources := AList.update r (re_put re l d) (Resources te)\<rparr>)"

definition wf_re :: "ResourceEntry \<Rightarrow> bool" where
  "wf_re re = distinct (map fst (re_Data re))"

definition wf_te :: "TypeEntry \<Rightarrow> bool" where
  "wf_te te = (distinct (map fst (Resources te)) \<and> (\<forall>(r, re) \<in> set (Resources te). wf_re re))"

definition te_caches_ok :: "TypeEntry \<Rightarrow> bool" where
  "te_caches_ok te = (te_cache_ok te \<and> (\<forall>(r, re) \<in> set (Resources te). re_cache_ok re))"

text \<open>
  Between a set and its successor: every cached slice of the successor is either nil or
  belongs to an entry whose key set and cache are those it had before.
\<close>

definition te_same_or_cleared :: "TypeEntry option \<Rightarrow> TypeEntry \<Rightarrow> bool" where
  "te_same_or_cleared old te1 =
     (te_OrderedKeys te1 = None
      \<or> (case old of
            None \<Rightarrow> False
          | Some te \<Rightarrow> fst ` set (Resources te1) = fst ` set (Resources te)
              \<and> te_OrderedKeys te1 = te_OrderedKeys te \<and> NamesCount te1 = NamesCount te))"

definition re_same_or_cleared :: "ResourceEntry option \<Rightarrow> ResourceEntry \<Rightarrow> bool" where
  "re_same_or_cleared old re1 =
     (re_OrderedKeys re1 = None
      \<or> (case old of
            None \<Rightarrow> False
          | Some re \<Rightarrow> fst ` set (re_Data re1) = fst ` set (re_Data re)
              \<and> re_OrderedKeys re1 = re_OrderedKeys re))"

definition lookup_re :: "ResourceSet \<Rightarrow> Identifier \<Rightarrow> Identifier \<Rightarrow> ResourceEntry option" where
  "lookup_re rs t r =
     (case map_of (Types rs) t of None \<Rightarrow> None | Some te \<Rightarrow> map_of (Resources te) r)"

definition te_cleared_or_same :: "ResourceSet \<Rightarrow> ResourceSet \<Rightarrow> bool" where
  "te_cleared_or_same rs rs1 =
     (\<forall>(t, te1) \<in> set (Types rs1). te_same_or_cleared (map_of (Types rs) t) te1)"

definition re_cleared_or_same :: "ResourceSet \<Rightarrow> ResourceSet \<Rightarrow> bool" where
  "re_cleared_or_same rs rs1 =
     (\<forall>(t, te1) \<in> set (Types rs1). \<forall>(r, re1) \<in> set (Resources te1).
        re_same_or_cleared (lookup_re rs t r) re1)"

definition example_operations :: "operation list" where
  "example_operations =
     [OpSet (ID 3) (ID 1) 0 (Some [1]), OpSet (ID 3) (Name [97]) 0 (Some [2]), OpOrder]"


section \<open>The layout in closed form\<close>

text \<open>
  The content of a resource set in identifier order at every level: the order in which
  \<open>Walk\<close> visits it and \<open>write\<close> emits it.
\<close>

type_synonym lang_tree = "(uint16 \<times> byte list) list"
type_synonym res_tree = "(Identifier \<times> lang_tree) list"
type_synonym type_tree = "(Identifier \<times> res_tree) list"

definition canon_re :: "ResourceEntry \<Rightarrow> lang_tree" where
  "canon_re re =
     map (\<lambda>l. (l, case map_of (re_Data re) l of Some de \<Rightarrow> de_Data de | None \<Rightarrow> []))
       (sort (map fst (re_Data re)))"

definition canon_te :: "TypeEntry \<Rightarrow> res_tree" where
  "canon_te te =
     map (\<lambda>r. (r, case map_of (Resources te) r of Some re \<Rightarrow> canon_re re | None \<Rightarrow> []))
       (sort (map fst (Resources te)))"

definition canon :: "ResourceSet \<Rightarrow> type_tree" where
  "canon rs =
     map (\<lambda>t. (t, case map_of (Types rs) t of Some te \<Rightarrow> canon_te te | None \<Rightarrow> []))
       (sort (map fst (Types rs)))"

definition all_res :: "type_tree \<Rightarrow> res_tree" where
  "all_res T = concat (map snd T)"

definition all_data :: "type_tree \<Rightarrow> lang_tree" where
  "all_data T = concat (map snd (all_res T))"

text \<open>The start offsets of consecutive blocks of the given sizes.\<close>

fun offsets :: "nat \<Rightarrow> nat list \<Rightarrow> nat list" where
  "offsets off [] = []"
| "offsets off (n # ns) = off # offsets (off + n) ns"

definition enc_entry :: "(rune list \<times> nat) list \<Rightarrow> bool \<Rightarrow> Identifier \<Rightarrow> nat \<Rightarrow> byte list" where
  "enc_entry noff sub k off =
     (case k of
        Name n \<Rightarrow> writeDirectoryEntry (case map_of noff n of None \<Rightarrow> 0 | Some x \<Rightarrow> x) off True sub
      | ID i \<Rightarrow> writeDirectoryEntry (unat i) off False sub)"

definition enc_dir ::
  "(rune list \<times> nat) list \<Rightarrow> bool \<Rightarrow> Identifier list \<Rightarrow> nat list \<Rightarrow> byte list" where
  "enc_dir noff sub ks offs =
     writeDirectoryTable (length (filter is_Name ks)) (length (filter is_ID ks))
       @ concat (map2 (enc_entry noff sub) ks offs)"

fun ident_names :: "Identifier \<Rightarrow> rune list list" where
  "ident_names (Name n) = [n]"
| "ident_names (ID _) = []"

definition tree_names :: "type_tree \<Rightarrow> rune list list" where
  "tree_names T =
     sort (remdups (concat (map (\<lambda>(t, rs). ident_names t @ concat (map (ident_names \<circ> fst) rs)) T)))"

definition te_sizes :: "type_tree \<Rightarrow> nat list" where
  "te_sizes T = map (\<lambda>(t, rs). 16 + 8 * length rs) T"

definition re_sizes :: "res_tree \<Rightarrow> nat list" where
  "re_sizes rs = map (\<lambda>(r, ls). 16 + 8 * length ls) rs"

definition off2 :: "type_tree \<Rightarrow> nat" where
  "off2 T = 16 + 8 * length T"

definition off3 :: "type_tree \<Rightarrow> nat" where
  "off3 T = off2 T + sum_list (te_sizes T)"

definition off4 :: "type_tree \<Rightarrow> nat" where
  "off4 T = off3 T + sum_list (re_sizes (all_res T))"

definition off5 :: "type_tree \<Rightarrow> nat" where
  "off5 T = off4 T + 16 * length (all_data T)"

definition tree_state :: "type_tree \<Rightarrow> state" where
  "tree_state T =
     (let s1 = names_loop (tree_names T) (off5 T) empty_state;
          sz = length (namesData s1) * 2
      in s1\<lparr>namesData := namesData s1 @ replicate ((alignData sz - sz) div 2) 0\<rparr>)"

definition off6 :: "type_tree \<Rightarrow> nat" where
  "off6 T = off5 T + length (namesData (tree_state T)) * 2"

definition layer1 :: "type_tree \<Rightarrow> byte list" where
  "layer1 T = enc_dir (nameOffset (tree_state T)) True (map fst T) (offsets (off2 T) (te_sizes T))"

definition layer2 :: "type_tree \<Rightarrow> byte list" where
  "layer2 T =
     concat (map2 (\<lambda>(t, rs) base.
         enc_dir (nameOffset (tree_state T)) True (map fst rs) (offsets base (re_sizes rs)))
       T (offsets (off3 T) (map (\<lambda>(t, rs). sum_list (re_sizes rs)) T)))"

definition layer3 :: "type_tree \<Rightarrow> byte list" where
  "layer3 T =
     concat (map2 (\<lambda>(r, ls) base.
         enc_dir [] False (map (ID \<circ> fst) ls) (offsets base (replicate (length ls) 16)))
       (all_res T) (offsets (off4 T) (map (\<lambda>(r, ls). 16 * length ls) (all_res T))))"

definition layer4 :: "type_tree \<Rightarrow> byte list" where
  "layer4 T =
     concat (map2 (\<lambda>(l, d) rva. writeDataEntry rva (length d))
       (all_data T) (offsets (off6 T) (map (\<lambda>(l, d). alignData (length d)) (all_data T))))"

definition layer5 :: "type_tree \<Rightarrow> byte list" where
  "layer5 T = concat (map le16 (namesData (tree_state T)))"

definition layer6 :: "type_tree \<Rightarrow> byte list" where
  "layer6 T =
     concat (map (\<lambda>(l, d). d @ replicate (alignData (length d) - length d) 0) (all_data T))"

definition encode_tree :: "type_tree \<Rightarrow> byte list" where
  "encode_tree T = layer1 T @ layer2 T @ layer3 T @ layer4 T @ layer5 T @ layer6 T"

definition reloc_tree :: "type_tree \<Rightarrow> nat list" where
  "reloc_tree T = offsets (off4 T) (replicate (length (all_data T)) 16)"

text \<open>
  Every order cache of the set is filled and right: the state \<open>order\<close> is meant to
  establish.
\<close>

definition re_ordered :: "ResourceEntry \<Rightarrow> bool" where
  "re_ordered re = (re_OrderedKeys re = Some (sort (map fst (re_Data re))))"

definition te_ordered :: "TypeEntry \<Rightarrow> bool" where
  "te_ordered te =
     (te_OrderedKeys te = Some (sort (map fst (Resources te)))
      \<and> NamesCount te = length (takeWhile is_Name (sort (map fst (Resources te))))
      \<and> (\<forall>(r, re) \<in> set (Resources te). re_ordered re))"

definition all_ordered :: "ResourceSet \<Rightarrow> bool" where
  "all_ordered rs = (\<forall>(t, te) \<in> set (Types rs). te_ordered te)"

text \<open>
  A type entry whose key order is cached has the key order of each of its resource
  entries cached as well.
\<close>

definition coherent :: "ResourceSet \<Rightarrow> bool" where
  "coherent rs =
     (\<forall>(t, te) \<in> set (Types rs).
        te_OrderedKeys te \<noteq> None \<longrightarrow> (\<forall>(r, re) \<in> set (Resources te). re_OrderedKeys re \<noteq> None))"

text \<open>
  A tree describes an ordered set: each of its nodes is found in the set under its key,
  with the cached key order the tree lists.
\<close>

definition re_rel :: "ResourceEntry \<Rightarrow> lang_tree \<Rightarrow> bool" where
  "re_rel re lt =
     (re_OrderedKeys re = Some (map fst lt) \<and> length (re_Data re) = length lt
      \<and> (\<forall>(l, d) \<in> set lt. \<exists>de. map_of (re_Data re) l = Some de \<and> de_Data de = d))"

definition te_rel :: "TypeEntry \<Rightarrow> res_tree \<Rightarrow> bool" where
  "te_rel te rt =
     (te_OrderedKeys te = Some (map fst rt) \<and> sorted (map fst rt)
      \<and> NamesCount te = length (takeWhile is_Name (map fst rt))
      \<and> length (Resources te) = length rt
      \<and> (\<forall>(r, lt) \<in> set rt. \<exists>re. map_of (Resources te) r = Some re \<and> re_rel re lt))"

definition tree_of :: "ResourceSet \<Rightarrow> type_tree \<Rightarrow> bool" where
  "tree_of rs T = (\<forall>(t, rt) \<in> set T. \<exists>te. map_of (Types rs) t = Some te \<and> te_rel te rt)"

text \<open>
  The size of the directory region as the specification words it: a 16-byte header plus
  8 bytes per entry at the root, the same for every type entry, and the same for every
  resource entry.
\<close>

definition spec_dirSize :: "ResourceSet \<Rightarrow> nat" where
  "spec_dirSize rs =
     16 + 8 * length (Types rs)
       + sum_list (map (\<lambda>(t, te). 16 + 8 * length (Resources te)) (Types rs))
       + sum_list (map (\<lambda>(t, te).
           sum_list (map (\<lambda>(r, re). 16 + 8 * length (re_Data re)) (Resources te))) (Types rs))"

text \<open>
  A set that was serialised once and then given a second language for its resource, and
  the set with the same content built by two calls of \<open>Set\<close> alone.
\<close>

definition stale_example :: ResourceSet where
  "stale_example =
     (case ResourceSet_write one_icon of
        None \<Rightarrow> one_icon
      | Some (b, r, rs1) \<Rightarrow> fst (ResourceSet_Set rs1 (ID 3) (ID 1) 0x409 (Some [4, 5])))"

definition fresh_example :: ResourceSet where
  "fresh_example = fst (ResourceSet_Set one_icon (ID 3) (ID 1) 0x409 (Some [4, 5]))"

text \<open>
  The ordering law of one directory level, on its keys in the order of their entries: a
  name precedes an ordinal, names ascend, ordinals ascend.
\<close>

definition names_first :: "Identifier list \<Rightarrow> bool" where
  "names_first ks =
     (\<forall>i j. i < length ks \<and> j < length ks \<and> is_Name (ks ! i) \<and> is_ID (ks ! j) \<longrightarrow> i < j)"

definition names_ascending :: "Identifier list \<Rightarrow> bool" where
  "names_ascending ks =
     (\<forall>i j n m. i < j \<and> j < length ks \<and> ks ! i = Name n \<and> ks ! j = Name m \<longrightarrow> n < m)"

definition ids_ascending :: "Identifier list \<Rightarrow> bool" where
  "ids_ascending ks =
     (\<forall>i j a b. i < j \<and> j < length ks \<and> ks ! i = ID a \<and> ks ! j = ID b \<longrightarrow> a < b)"

definition level_ordered :: "Identifier list \<Rightarrow> bool" where
  "level_ordered ks = (names_first ks \<and> names_ascending ks \<and> ids_ascending ks)"

text \<open>
  The directories of the closed form, in the order of the output, each with its keys:
  the type directory, the resource directories, the language directories.
\<close>

definition tree_dirs :: "type_tree \<Rightarrow> (Identifier list \<times> byte list) list" where
  "tree_dirs T =
     (map fst T, layer1 T)
     # map2 (\<lambda>(t, rs) base.
         (map fst rs, enc_dir (nameOffset (tree_state T)) True (map fst rs) (offsets base (re_sizes rs))))
       T (offsets (off3 T) (map (\<lambda>(t, rs). sum_list (re_sizes rs)) T))
     @ map2 (\<lambda>(r, ls) base.
         (map (ID \<circ> fst) ls,
          enc_dir [] False (map (ID \<circ> fst) ls) (offsets base (replicate (length ls) 16))))
       (all_res T) (offsets (off4 T) (map (\<lambda>(r, ls). 16 * length ls) (all_res T)))"

text \<open>A set with 65536 named types, each holding one resource.\<close>

definition many :: nat where "many = 65536"

definition many_names :: ResourceSet where
  "many_names =
     \<lparr>Types = map (\<lambda>i. (Name (replicate (Suc i) 97),
          \<lparr>Resources = [(ID 1, \<lparr>re_Data = [(0, \<lparr>de_Data = [1]\<rparr>)], re_OrderedKeys = None\<rparr>)],
           te_OrderedKeys = None, NamesCount = 0\<rparr>)) [0..<many],
      lastIconID = 0, lastCursorID = 0\<rparr>"

text \<open>
  The triples of a tree with their payloads, in the order of the output, and the key of a
  triple.
\<close>

definition res_triples :: "res_tree \<Rightarrow> (Identifier \<times> uint16 \<times> byte list) list" where
  "res_triples rt = concat (map (\<lambda>(r, lt). map (Pair r) lt) rt)"

definition triples :: "type_tree \<Rightarrow> (Identifier \<times> Identifier \<times> uint16 \<times> byte list) list" where
  "triples T = concat (map (\<lambda>(t, rt). map (Pair t) (res_triples rt)) T)"

definition triple_key ::
  "Identifier \<times> Identifier \<times> uint16 \<times> byte list \<Rightarrow> Identifier \<times> Identifier \<times> uint16" where
  "triple_key = (\<lambda>(t, r, l, d). (t, r, l))"

text \<open>
  The payloads follow the name table, each padded to the alignment: the offsets at which
  they begin.
\<close>

definition payload_offsets :: "type_tree \<Rightarrow> nat list" where
  "payload_offsets T = offsets (off6 T) (map (\<lambda>(t, r, l, d). alignData (length d)) (triples T))"

text \<open>A resource with two languages, the payload of the first of \<open>2\<^sup>3\<^sup>2\<close> bytes.\<close>

definition big_size :: nat where "big_size = 4294967296"

definition big_payload :: "byte list" where "big_payload = replicate big_size 0"

definition big_example :: ResourceSet where
  "big_example =
     \<lparr>Types = [(ID 3,
        \<lparr>Resources = [(ID 1,
           \<lparr>re_Data = [(0, \<lparr>de_Data = big_payload\<rparr>), (1, \<lparr>de_Data = [1]\<rparr>)],
            re_OrderedKeys = None\<rparr>)],
         te_OrderedKeys = None, NamesCount = 0\<rparr>)],
      lastIconID = 1, lastCursorID = 0\<rparr>"











section \<open>Alignment\<close>

lemma and_not_mask3: "(x::int) AND NOT (mask 3) = push_bit 3 (drop_bit 3 x)"
  by (rule bit_eqI) (auto simp: bit_simps)

lemma and_neg8: "(x::int) AND - 8 = x div 8 * 8"
proof -
  have "(- 8::int) = NOT (mask 3)" by (simp add: mask_eq_exp_minus_1)
  then have "x AND - 8 = x AND NOT (mask 3)" by (simp only:)
  also have "\<dots> = x div 8 * 8"
    by (simp only: and_not_mask3) (simp add: push_bit_eq_mult drop_bit_eq_div)
  finally show ?thesis .
qed

lemma alignData_eq: "alignData n = (n + 7) div 8 * 8"
proof -
  have "alignData n = nat (int (n + 7) div 8 * 8)"
    by (simp add: alignData_def dataAlignment_def and_neg8 add.commute)
  also have "\<dots> = (n + 7) div 8 * 8"
    by (metis nat_int of_nat_div of_nat_mult of_nat_numeral)
  finally show ?thesis .
qed

lemma alignData_bounds:
  "alignData n mod 8 = 0" "n \<le> alignData n" "alignData n - n < 8"
  unfolding alignData_eq by presburger+

lemma DataEntry_writeData_eq:
  "DataEntry_writeData de
     = de_Data de @ replicate (alignData (length (de_Data de)) - length (de_Data de)) 0"
proof -
  have "alignData (length (de_Data de)) - length (de_Data de) < 8"
    by (rule alignData_bounds)
  then have "take (alignData (length (de_Data de)) - length (de_Data de))
        (replicate dataAlignment (0::byte))
      = replicate (alignData (length (de_Data de)) - length (de_Data de)) 0"
    by (simp add: dataAlignment_def min_def)
  then show ?thesis
    by (simp add: DataEntry_writeData_def paddedDataSize_def)
qed

section \<open>Mutation\<close>

lemma in_set_updateD:
  "p \<in> set (AList.update k v al) \<Longrightarrow> p = (k, v) \<or> p \<in> set al"
  by (induction al) (auto split: if_splits)

lemma in_set_deleteD: "p \<in> set (AList.delete k al) \<Longrightarrow> p \<in> set al \<and> fst p \<noteq> k"
  by (auto simp: AList.delete_eq)

lemma Types_bump_counters [simp]: "Types (bump_counters rs t r) = Types rs"
  by (auto simp: bump_counters_def split: Identifier.splits)

lemma no_empty_nodes_delete:
  assumes "no_empty_nodes rs"
  shows "no_empty_nodes (ResourceSet_delete rs t r l)"
  using assms
  unfolding no_empty_nodes_def ResourceSet_delete_def Let_def
  by (auto split: option.splits dest!: in_set_updateD in_set_deleteD map_of_SomeD; fastforce)

lemma no_empty_nodes_set:
  assumes "no_empty_nodes rs"
  shows "no_empty_nodes (ResourceSet_set rs t r l (Some d))"
  using assms
  unfolding no_empty_nodes_def ResourceSet_set_def Let_def
  by (auto split: option.splits dest!: in_set_updateD in_set_deleteD map_of_SomeD; fastforce)

lemma no_empty_nodes_Set:
  assumes "no_empty_nodes rs"
  shows "no_empty_nodes (fst (ResourceSet_Set rs t r l d))"
proof (cases d)
  case None
  with assms show ?thesis
    by (auto simp: ResourceSet_Set_def ResourceSet_set_def no_empty_nodes_delete
        split: option.splits)
next
  case (Some a)
  with assms show ?thesis
    by (auto simp: ResourceSet_Set_def no_empty_nodes_set split: option.splits)
qed

lemma delete_last_variant:
  assumes "map_of (Types rs) t = Some te" "Resources te = [(r, re)]" "re_Data re = [(l, de)]"
  shows "t \<notin> fst ` set (Types (ResourceSet_delete rs t r l))"
  using assms by (simp add: ResourceSet_delete_def AList.delete_notin_dom)

text \<open>
  Claim C6. The set never holds a type entry with no resource or a resource entry with no
  language variant: the empty set holds none, every call of \<open>Set\<close> keeps it so, and
  deleting the only variant of the only resource of a type removes the type.
\<close>

theorem pruning_invariant:
  "no_empty_nodes empty_ResourceSet
   \<and> (no_empty_nodes rs \<longrightarrow> no_empty_nodes (fst (ResourceSet_Set rs typeID resID langID data)))
   \<and> (checkIdentifier typeID = None \<and> checkIdentifier resID = None
        \<and> map_of (Types rs) typeID = Some te \<and> Resources te = [(resID, re)]
        \<and> re_Data re = [(langID, de)]
      \<longrightarrow> typeID \<notin> fst ` set (Types (fst (ResourceSet_Set rs typeID resID langID None))))"
proof (intro conjI impI)
  show "no_empty_nodes empty_ResourceSet"
    by (simp add: no_empty_nodes_def empty_ResourceSet_def)
next
  assume "no_empty_nodes rs"
  then show "no_empty_nodes (fst (ResourceSet_Set rs typeID resID langID data))"
    by (rule no_empty_nodes_Set)
next
  assume a: "checkIdentifier typeID = None \<and> checkIdentifier resID = None
        \<and> map_of (Types rs) typeID = Some te \<and> Resources te = [(resID, re)]
        \<and> re_Data re = [(langID, de)]"
  then have "fst (ResourceSet_Set rs typeID resID langID None)
      = ResourceSet_delete rs typeID resID langID"
    by (simp add: ResourceSet_Set_def ResourceSet_set_def)
  with a show "typeID \<notin> fst ` set (Types (fst (ResourceSet_Set rs typeID resID langID None)))"
    using delete_last_variant by simp
qed

lemma one_icon_eq:
  "one_icon = \<lparr>Types = [(ID 3, \<lparr>Resources = [(ID 1, \<lparr>re_Data = [(0, \<lparr>de_Data = [1, 2, 3]\<rparr>)],
       re_OrderedKeys = None\<rparr>)], te_OrderedKeys = None, NamesCount = 0\<rparr>)],
     lastIconID = 1, lastCursorID = 0\<rparr>"
  by (simp add: one_icon_def ResourceSet_Set_def ResourceSet_set_def empty_ResourceSet_def
      bump_counters_def RT_ICON_def Let_def)

theorem pruning_invariant_witness:
  "no_empty_nodes one_icon
   \<and> no_empty_nodes (fst (ResourceSet_Set one_icon (ID 3) (ID 1) 0 None))
   \<and> ID 3 \<notin> fst ` set (Types (fst (ResourceSet_Set one_icon (ID 3) (ID 1) 0 None)))"
proof -
  have h: "no_empty_nodes one_icon"
    by (simp add: one_icon_eq no_empty_nodes_def)
  have m: "map_of (Types one_icon) (ID 3)
      = Some \<lparr>Resources = [(ID 1, \<lparr>re_Data = [(0, \<lparr>de_Data = [1, 2, 3]\<rparr>)],
          re_OrderedKeys = None\<rparr>)], te_OrderedKeys = None, NamesCount = 0\<rparr>"
    by (simp add: one_icon_eq)
  show ?thesis
    using h m
      pruning_invariant [of one_icon "ID 3" "ID 1" 0 None
        "\<lparr>Resources = [(ID 1, \<lparr>re_Data = [(0, \<lparr>de_Data = [1, 2, 3]\<rparr>)],
            re_OrderedKeys = None\<rparr>)], te_OrderedKeys = None, NamesCount = 0\<rparr>"
        "\<lparr>re_Data = [(0, \<lparr>de_Data = [1, 2, 3]\<rparr>)], re_OrderedKeys = None\<rparr>"
        "\<lparr>de_Data = [1, 2, 3]\<rparr>"]
    by simp
qed

text \<open>
  Claim C7. A call of \<open>Set\<close> whose type or resource identifier is a zero ordinal or an
  empty name returns an error and leaves the whole set, counters included, as it was.
\<close>

theorem invalid_identifier_rejected:
  "typeID = ID 0 \<or> typeID = Name [] \<or> resID = ID 0 \<or> resID = Name []
   \<Longrightarrow> snd (ResourceSet_Set rs typeID resID langID data) \<noteq> None
       \<and> fst (ResourceSet_Set rs typeID resID langID data) = rs"
  by (auto simp: ResourceSet_Set_def split: option.splits)

theorem invalid_identifier_rejected_witness:
  "ResourceSet_Set one_icon RT_ICON (ID 0) 0 (Some [7]) = (one_icon, Some ErrZeroID)
   \<and> snd (ResourceSet_Set one_icon (Name []) (ID 2) 0 None) \<noteq> None
   \<and> fst (ResourceSet_Set one_icon (Name []) (ID 2) 0 None) = one_icon"
  using invalid_identifier_rejected [of "Name []" "ID 2" one_icon 0 None]
  by (simp add: ResourceSet_Set_def)

section \<open>Sorting and searching\<close>

lemma sort_Search_loop_spec:
  assumes "\<And>a b. a \<le> b \<Longrightarrow> b < n \<Longrightarrow> f a \<Longrightarrow> f b"
    and "i \<le> j" "j \<le> n" "\<And>k. k < i \<Longrightarrow> \<not> f k" "\<And>k. j \<le> k \<Longrightarrow> k < n \<Longrightarrow> f k"
  shows "(\<forall>k < sort_Search_loop f i j. \<not> f k)
       \<and> (\<forall>k. sort_Search_loop f i j \<le> k \<and> k < n \<longrightarrow> f k)
       \<and> sort_Search_loop f i j \<le> n"
  using assms
proof (induction f i j rule: sort_Search_loop.induct)
  case (1 f i j)
  show ?case
  proof (cases "i < j")
    case False
    then have "sort_Search_loop f i j = i" by (simp add: sort_Search_loop.simps)
    moreover from False "1.prems" have "i = j" by simp
    ultimately show ?thesis using "1.prems" by auto
  next
    case True
    define h where "h = (i + j) div 2"
    have hb: "i \<le> h" "h < j" using True by (auto simp: h_def)
    show ?thesis
    proof (cases "f h")
      case False
      have eq: "sort_Search_loop f i j = sort_Search_loop f (h + 1) j"
        using True False by (subst sort_Search_loop.simps) (simp add: h_def Let_def)
      have nf: "\<And>k. k < h + 1 \<Longrightarrow> \<not> f k"
      proof -
        fix k assume "k < h + 1"
        then have "k \<le> h" by simp
        moreover have "h < n" using hb "1.prems" by simp
        ultimately show "\<not> f k" using "1.prems"(1)[of k h] False by blast
      qed
      have "(\<forall>k < sort_Search_loop f (h + 1) j. \<not> f k)
       \<and> (\<forall>k. sort_Search_loop f (h + 1) j \<le> k \<and> k < n \<longrightarrow> f k)
       \<and> sort_Search_loop f (h + 1) j \<le> n"
      proof (rule "1.IH"(1)[OF True h_def False])
        show "\<And>a b. a \<le> b \<Longrightarrow> b < n \<Longrightarrow> f a \<Longrightarrow> f b" by (rule "1.prems"(1))
        show "h + 1 \<le> j" using hb by simp
        show "j \<le> n" by (rule "1.prems"(3))
        show "\<And>k. k < h + 1 \<Longrightarrow> \<not> f k" by (rule nf)
        show "\<And>k. j \<le> k \<Longrightarrow> k < n \<Longrightarrow> f k" by (rule "1.prems"(5))
      qed
      then show ?thesis unfolding eq .
    next
      case fh: True
      have eq: "sort_Search_loop f i j = sort_Search_loop f i h"
        using True fh by (subst sort_Search_loop.simps) (simp add: h_def Let_def)
      have ff: "\<And>k. h \<le> k \<Longrightarrow> k < n \<Longrightarrow> f k"
        using "1.prems"(1) fh by blast
      have "(\<forall>k < sort_Search_loop f i h. \<not> f k)
       \<and> (\<forall>k. sort_Search_loop f i h \<le> k \<and> k < n \<longrightarrow> f k)
       \<and> sort_Search_loop f i h \<le> n"
      proof (rule "1.IH"(2)[OF True h_def])
        show "\<not> \<not> f h" using fh by simp
        show "\<And>a b. a \<le> b \<Longrightarrow> b < n \<Longrightarrow> f a \<Longrightarrow> f b" by (rule "1.prems"(1))
        show "i \<le> h" using hb by simp
        show "h \<le> n" using hb "1.prems"(3) by simp
        show "\<And>k. k < i \<Longrightarrow> \<not> f k" by (rule "1.prems"(4))
        show "\<And>k. h \<le> k \<Longrightarrow> k < n \<Longrightarrow> f k" by (rule ff)
      qed
      then show ?thesis unfolding eq .
    qed
  qed
qed

lemma sort_Search_takeWhile:
  assumes "\<And>a b. a \<le> b \<Longrightarrow> b < length xs \<Longrightarrow> Q (xs ! a) \<Longrightarrow> Q (xs ! b)"
  shows "sort_Search (length xs) (\<lambda>i. Q (xs ! i)) = length (takeWhile (\<lambda>x. \<not> Q x) xs)"
proof -
  define r where "r = sort_Search_loop (\<lambda>i. Q (xs ! i)) 0 (length xs)"
  have s: "(\<forall>k < r. \<not> Q (xs ! k)) \<and> (\<forall>k. r \<le> k \<and> k < length xs \<longrightarrow> Q (xs ! k)) \<and> r \<le> length xs"
    unfolding r_def
  proof (rule sort_Search_loop_spec[where n="length xs"])
    show "\<And>a b. a \<le> b \<Longrightarrow> b < length xs \<Longrightarrow> Q (xs ! a) \<Longrightarrow> Q (xs ! b)" by (rule assms)
  qed simp_all
  have "takeWhile (\<lambda>x. \<not> Q x) xs = take r xs"
  proof (rule takeWhile_eq_take_P_nth)
    show "\<And>i. i < r \<Longrightarrow> i < length xs \<Longrightarrow> \<not> Q (xs ! i)" using s by blast
    show "r < length xs \<Longrightarrow> \<not> \<not> Q (xs ! r)" using s by blast
  qed
  then have "length (takeWhile (\<lambda>x. \<not> Q x) xs) = r" using s by simp
  then show ?thesis by (simp add: sort_Search_def r_def)
qed

lemma is_ID_not_Name: "is_ID x = (\<not> is_Name x)"
  by (cases x) auto

lemma Name_le_ID: "is_Name x \<Longrightarrow> is_ID y \<Longrightarrow> x \<le> y"
  by (cases x; cases y) (auto simp: less_eq_Identifier_def)

lemma sorted_names_first:
  assumes "sorted (ks :: Identifier list)" "a \<le> b" "b < length ks" "\<not> is_Name (ks ! a)"
  shows "\<not> is_Name (ks ! b)"
proof
  assume "is_Name (ks ! b)"
  have "ks ! a \<le> ks ! b" using assms by (simp add: sorted_nth_mono)
  then show False using assms(4) \<open>is_Name (ks ! b)\<close>
    by (cases "ks ! a"; cases "ks ! b") (auto simp: less_eq_Identifier_def)
qed

lemma namesCount_sorted:
  assumes "sorted (ks :: Identifier list)"
  shows "sort_Search (length ks) (\<lambda>i. is_ID (ks ! i)) = length (takeWhile is_Name ks)"
proof -
  have "sort_Search (length ks) (\<lambda>i. is_ID (ks ! i)) = length (takeWhile (\<lambda>x. \<not> is_ID x) ks)"
  proof (rule sort_Search_takeWhile)
    fix a b assume "a \<le> b" "b < length ks" "is_ID (ks ! a)"
    then show "is_ID (ks ! b)"
      using sorted_names_first[OF assms, of a b] by (simp add: is_ID_not_Name)
  qed
  moreover have "(\<lambda>x. \<not> is_ID x) = is_Name" by (rule ext) (simp add: is_ID_not_Name)
  ultimately show ?thesis by simp
qed

section \<open>Well-formedness and cache invariants\<close>

lemma keys_update:
  "map fst (AList.update k v al) = (if k \<in> fst ` set al then map fst al else map fst al @ [k])"
  by (simp add: AList.update_keys)

lemma map_of_Some_in_keys: "map_of al k = Some v \<Longrightarrow> k \<in> fst ` set al"
  by (metis domI dom_map_of_conv_image_fst)


lemma all_update:
  assumes "\<forall>p \<in> set al. P p" "P (k, v)"
  shows "\<forall>p \<in> set (AList.update k v al). P p"
proof
  fix p assume "p \<in> set (AList.update k v al)"
  then have "p = (k, v) \<or> p \<in> set al" by (rule in_set_updateD)
  then show "P p" using assms by auto
qed

lemma all_delete:
  assumes "\<forall>p \<in> set al. P p"
  shows "\<forall>p \<in> set (AList.delete k al). P p"
  using assms by (simp add: AList.delete_eq)

lemma set_Types:
  "Types (ResourceSet_set rs t r l (Some d)) =
     AList.update t
       (te_put (case map_of (Types rs) t of
                  None \<Rightarrow> \<lparr>Resources = [], te_OrderedKeys = None, NamesCount = 0\<rparr>
                | Some te \<Rightarrow> te) r l d) (Types rs)"
  by (simp add: ResourceSet_set_def te_put_def re_put_def Let_def split: option.splits)

lemma wf_ResourceSet_alt:
  "wf_ResourceSet rs = (distinct (map fst (Types rs)) \<and> (\<forall>(t, te) \<in> set (Types rs). wf_te te))"
  by (simp add: wf_ResourceSet_def wf_te_def wf_re_def)

lemma caches_ok_alt: "caches_ok rs = (\<forall>(t, te) \<in> set (Types rs). te_caches_ok te)"
  by (simp add: caches_ok_def te_caches_ok_def)

lemma wf_re_put: "wf_re re \<Longrightarrow> wf_re (re_put re l d)"
  by (simp add: wf_re_def re_put_def AList.distinct_update split: option.splits)

lemma wf_te_put:
  assumes "wf_te te"
  shows "wf_te (te_put te r l d)"
proof (cases "map_of (Resources te) r")
  case None
  have "wf_re (re_put \<lparr>re_Data = [], re_OrderedKeys = None\<rparr> l d)"
    by (rule wf_re_put) (simp add: wf_re_def)
  with assms None show ?thesis
    unfolding wf_te_def te_put_def
    by (auto simp: AList.distinct_update dest!: in_set_updateD)
next
  case (Some re)
  then have "wf_re re" using assms by (auto simp: wf_te_def dest!: map_of_SomeD)
  then have "wf_re (re_put re l d)" by (rule wf_re_put)
  with assms Some show ?thesis
    unfolding wf_te_def te_put_def
    by (auto simp: AList.distinct_update dest!: in_set_updateD)
qed

lemma wf_set:
  assumes "wf_ResourceSet rs"
  shows "wf_ResourceSet (ResourceSet_set rs t r l (Some d))"
proof -
  let ?te = "case map_of (Types rs) t of
                  None \<Rightarrow> \<lparr>Resources = [], te_OrderedKeys = None, NamesCount = 0\<rparr>
                | Some te \<Rightarrow> te"
  have "wf_te ?te" using assms
    by (auto simp: wf_ResourceSet_alt wf_te_def split: option.splits dest!: map_of_SomeD)
  then have "wf_te (te_put ?te r l d)" by (rule wf_te_put)
  with assms show ?thesis
    unfolding wf_ResourceSet_alt set_Types
    by (auto simp: AList.distinct_update dest!: in_set_updateD)
qed

lemma wf_delete:
  assumes "wf_ResourceSet rs"
  shows "wf_ResourceSet (ResourceSet_delete rs t r l)"
proof (cases "map_of (Types rs) t")
  case None
  then show ?thesis using assms by (simp add: ResourceSet_delete_def)
next
  case (Some te)
  then have te: "wf_te te" using assms by (auto simp: wf_ResourceSet_alt dest!: map_of_SomeD)
  show ?thesis
  proof (cases "map_of (Resources te) r")
    case None
    then show ?thesis using assms Some by (simp add: ResourceSet_delete_def)
  next
    case re: (Some re)
    then have "wf_re re" using te by (auto simp: wf_te_def dest!: map_of_SomeD)
    then have re': "wf_re (re\<lparr>re_Data := AList.delete l (re_Data re), re_OrderedKeys := None\<rparr>)"
      by (simp add: wf_re_def AList.distinct_delete)
    have te1: "wf_te (te\<lparr>Resources := AList.update r
        (re\<lparr>re_Data := AList.delete l (re_Data re), re_OrderedKeys := None\<rparr>) (Resources te)\<rparr>)"
      using te re' by (auto simp: wf_te_def AList.distinct_update dest!: in_set_updateD)
    have te2: "wf_te (te\<lparr>Resources := AList.delete r (Resources te), te_OrderedKeys := None\<rparr>)"
      using te by (auto simp: wf_te_def AList.distinct_delete dest!: in_set_deleteD)
    show ?thesis
      using assms Some re te1 te2
      unfolding wf_ResourceSet_alt ResourceSet_delete_def Let_def
      by (auto simp: AList.distinct_update AList.distinct_delete
          dest!: in_set_updateD in_set_deleteD)
  qed
qed

lemma keys_set_update_present:
  "map_of al k = Some v \<Longrightarrow> fst ` set (AList.update k v' al) = fst ` set al"
  using map_of_Some_in_keys[of al k v] by (auto simp: AList.dom_update)

lemma re_cache_ok_put: "re_cache_ok re \<Longrightarrow> re_cache_ok (re_put re l d)"
  by (auto simp: re_cache_ok_def re_put_def keys_set_update_present split: option.splits)

lemma te_caches_ok_put:
  assumes "te_caches_ok te"
  shows "te_caches_ok (te_put te r l d)"
proof (cases "map_of (Resources te) r")
  case None
  have n: "re_cache_ok (re_put \<lparr>re_Data = [], re_OrderedKeys = None\<rparr> l d)"
    by (rule re_cache_ok_put) (simp add: re_cache_ok_def)
  have "\<forall>p \<in> set (AList.update r (re_put \<lparr>re_Data = [], re_OrderedKeys = None\<rparr> l d) (Resources te)).
      re_cache_ok (snd p)"
    by (rule all_update) (use assms n in \<open>auto simp: te_caches_ok_def\<close>)
  then show ?thesis using None
    by (auto simp: te_caches_ok_def te_put_def te_cache_ok_def)
next
  case (Some re)
  then have "re_cache_ok re" using assms by (auto simp: te_caches_ok_def dest!: map_of_SomeD)
  then have n: "re_cache_ok (re_put re l d)" by (rule re_cache_ok_put)
  have a: "\<forall>p \<in> set (AList.update r (re_put re l d) (Resources te)). re_cache_ok (snd p)"
    by (rule all_update) (use assms n in \<open>auto simp: te_caches_ok_def\<close>)
  have "te_cache_ok (te\<lparr>Resources := AList.update r (re_put re l d) (Resources te)\<rparr>)"
    using assms Some
    by (simp add: te_caches_ok_def te_cache_ok_def keys_set_update_present split: option.splits)
  then show ?thesis using Some a
    by (auto simp: te_caches_ok_def te_put_def)
qed

lemma caches_ok_set:
  assumes "caches_ok rs"
  shows "caches_ok (ResourceSet_set rs t r l (Some d))"
proof -
  let ?te = "case map_of (Types rs) t of
                  None \<Rightarrow> \<lparr>Resources = [], te_OrderedKeys = None, NamesCount = 0\<rparr>
                | Some te \<Rightarrow> te"
  have "te_caches_ok ?te"
  proof (cases "map_of (Types rs) t")
    case None
    then show ?thesis by (simp add: te_caches_ok_def te_cache_ok_def)
  next
    case (Some te)
    then have "(t, te) \<in> set (Types rs)" by (rule map_of_SomeD)
    then show ?thesis using assms Some by (auto simp: caches_ok_alt)
  qed
  then have n: "te_caches_ok (te_put ?te r l d)" by (rule te_caches_ok_put)
  have "\<forall>p \<in> set (AList.update t (te_put ?te r l d) (Types rs)). te_caches_ok (snd p)"
    by (rule all_update) (use assms n in \<open>auto simp: caches_ok_alt\<close>)
  then show ?thesis
    unfolding caches_ok_alt set_Types by auto
qed

lemma caches_ok_delete:
  assumes "caches_ok rs"
  shows "caches_ok (ResourceSet_delete rs t r l)"
proof (cases "map_of (Types rs) t")
  case None
  then show ?thesis using assms by (simp add: ResourceSet_delete_def)
next
  case (Some te)
  then have te: "te_caches_ok te" using assms by (auto simp: caches_ok_alt dest!: map_of_SomeD)
  show ?thesis
  proof (cases "map_of (Resources te) r")
    case None
    then show ?thesis using assms Some by (simp add: ResourceSet_delete_def)
  next
    case re: (Some re)
    let ?re = "re\<lparr>re_Data := AList.delete l (re_Data re), re_OrderedKeys := None\<rparr>"
    have re': "re_cache_ok ?re" by (simp add: re_cache_ok_def)
    have a: "\<forall>p \<in> set (AList.update r ?re (Resources te)). re_cache_ok (snd p)"
      by (rule all_update) (use te re' in \<open>auto simp: te_caches_ok_def\<close>)
    have "te_cache_ok (te\<lparr>Resources := AList.update r ?re (Resources te)\<rparr>)"
      using te re
      by (simp add: te_caches_ok_def te_cache_ok_def keys_set_update_present split: option.splits)
    then have te1: "te_caches_ok (te\<lparr>Resources := AList.update r ?re (Resources te)\<rparr>)"
      using a by (auto simp: te_caches_ok_def)
    have b: "\<forall>p \<in> set (AList.delete r (Resources te)). re_cache_ok (snd p)"
      by (rule all_delete) (use te in \<open>auto simp: te_caches_ok_def\<close>)
    have te2: "te_caches_ok (te\<lparr>Resources := AList.delete r (Resources te), te_OrderedKeys := None\<rparr>)"
      using b by (auto simp: te_caches_ok_def te_cache_ok_def)
    have u1: "\<forall>p \<in> set (AList.update t (te\<lparr>Resources := AList.update r ?re (Resources te)\<rparr>) (Types rs)).
        te_caches_ok (snd p)"
      by (rule all_update) (use assms te1 in \<open>auto simp: caches_ok_alt\<close>)
    have u2: "\<forall>p \<in> set (AList.update t
        (te\<lparr>Resources := AList.delete r (Resources te), te_OrderedKeys := None\<rparr>) (Types rs)).
        te_caches_ok (snd p)"
      by (rule all_update) (use assms te2 in \<open>auto simp: caches_ok_alt\<close>)
    have u3: "\<forall>p \<in> set (AList.delete t (Types rs)). te_caches_ok (snd p)"
      by (rule all_delete) (use assms in \<open>auto simp: caches_ok_alt\<close>)
    show ?thesis
      using Some re u1 u2 u3
      unfolding caches_ok_alt ResourceSet_delete_def Let_def
      by (simp add: case_prod_unfold)
  qed
qed

lemma set_None: "ResourceSet_set rs t r l None = ResourceSet_delete rs t r l"
  by (simp add: ResourceSet_set_def)

lemma wf_Set: "wf_ResourceSet rs \<Longrightarrow> wf_ResourceSet (fst (ResourceSet_Set rs t r l d))"
  by (cases d) (auto simp: ResourceSet_Set_def set_None wf_delete wf_set split: option.splits)

lemma caches_ok_Set: "caches_ok rs \<Longrightarrow> caches_ok (fst (ResourceSet_Set rs t r l d))"
  by (cases d) (auto simp: ResourceSet_Set_def set_None caches_ok_delete caches_ok_set
      split: option.splits)

lemma fst_comp_map_snd: "fst \<circ> (\<lambda>(k, v). (k, f v)) = fst"
  by (auto simp: fun_eq_iff)

lemma map_fst_map_snd: "map fst (map (\<lambda>(k, v). (k, f v)) al) = map fst al"
  by (simp add: fst_comp_map_snd)

lemma in_set_map_sndD:
  "p \<in> set (map (\<lambda>(k, v). (k, f v)) al) \<Longrightarrow> \<exists>v. (fst p, v) \<in> set al \<and> snd p = f v"
  by (induction al) auto

lemma wf_re_order: "wf_re (ResourceEntry_order re) = wf_re re"
  by (simp add: wf_re_def ResourceEntry_order_def split: option.splits)

lemma re_cache_ok_order: "wf_re re \<Longrightarrow> re_cache_ok re \<Longrightarrow> re_cache_ok (ResourceEntry_order re)"
  by (auto simp: wf_re_def re_cache_ok_def ResourceEntry_order_def sort_Slice_def
      split: option.splits)

lemma wf_te_Order: "wf_te te \<Longrightarrow> wf_te (TypeEntry_Order te)"
  by (auto simp: wf_te_def TypeEntry_Order_def Let_def fst_comp_map_snd wf_re_order
      split: option.splits dest!: in_set_map_sndD)

lemma te_caches_ok_Order:
  assumes "wf_te te" "te_caches_ok te"
  shows "te_caches_ok (TypeEntry_Order te)"
proof (cases "te_OrderedKeys te")
  case (Some ks)
  then show ?thesis using assms by (simp add: TypeEntry_Order_def)
next
  case None
  let ?keys = "sort_Slice (map fst (Resources te))"
  have s: "sorted ?keys" by (simp add: sort_Slice_def)
  have "NamesCount (TypeEntry_Order te) = length (takeWhile is_Name ?keys)"
    using None namesCount_sorted[OF s] by (simp add: TypeEntry_Order_def Let_def)
  moreover have "te_OrderedKeys (TypeEntry_Order te) = Some ?keys"
    using None by (simp add: TypeEntry_Order_def Let_def)
  moreover have r: "Resources (TypeEntry_Order te)
      = map (\<lambda>(ident, re). (ident, ResourceEntry_order re)) (Resources te)"
    using None by (simp add: TypeEntry_Order_def Let_def)
  moreover have "fst ` set (Resources (TypeEntry_Order te)) = fst ` set (Resources te)"
    unfolding r using map_fst_map_snd[of ResourceEntry_order "Resources te"]
    by (metis set_map)
  moreover have "distinct ?keys" using assms(1) by (simp add: wf_te_def sort_Slice_def)
  moreover have "set ?keys = fst ` set (Resources te)" by (simp add: sort_Slice_def)
  ultimately have c: "te_cache_ok (TypeEntry_Order te)"
    using s by (simp add: te_cache_ok_def)
  have "\<forall>p \<in> set (Resources (TypeEntry_Order te)). re_cache_ok (snd p)"
  proof
    fix p assume "p \<in> set (Resources (TypeEntry_Order te))"
    then obtain v where v: "(fst p, v) \<in> set (Resources te)" "snd p = ResourceEntry_order v"
      unfolding r using in_set_map_sndD by fastforce
    then have "wf_re v" "re_cache_ok v" using assms by (auto simp: wf_te_def te_caches_ok_def)
    then show "re_cache_ok (snd p)" using v(2) by (simp add: re_cache_ok_order)
  qed
  with c show ?thesis by (auto simp: te_caches_ok_def)
qed

lemma Types_order:
  "Types (fst (ResourceSet_order rs s)) = map (\<lambda>(ident, te). (ident, TypeEntry_Order te)) (Types rs)"
  by (simp add: ResourceSet_order_def Let_def)

lemma wf_order: "wf_ResourceSet rs \<Longrightarrow> wf_ResourceSet (fst (ResourceSet_order rs s))"
  unfolding wf_ResourceSet_alt Types_order
  by (auto simp: fst_comp_map_snd wf_te_Order dest!: in_set_map_sndD)

lemma caches_ok_order:
  assumes "wf_ResourceSet rs" "caches_ok rs"
  shows "caches_ok (fst (ResourceSet_order rs s))"
  unfolding caches_ok_alt Types_order
proof
  fix p assume "p \<in> set (map (\<lambda>(ident, te). (ident, TypeEntry_Order te)) (Types rs))"
  then obtain v where v: "(fst p, v) \<in> set (Types rs)" "snd p = TypeEntry_Order v"
    using in_set_map_sndD by fastforce
  then have "wf_te v" "te_caches_ok v"
    using assms by (auto simp: wf_ResourceSet_alt caches_ok_alt)
  then have "te_caches_ok (snd p)" using v(2) by (simp add: te_caches_ok_Order)
  then show "case p of (t, te) \<Rightarrow> te_caches_ok te" by (simp add: case_prod_unfold)
qed

lemma wf_Types_update:
  assumes "wf_ResourceSet rs" "wf_te te"
  shows "wf_ResourceSet (rs\<lparr>Types := AList.update t te (Types rs)\<rparr>)"
proof -
  have "\<forall>p \<in> set (AList.update t te (Types rs)). wf_te (snd p)"
    by (rule all_update) (use assms in \<open>auto simp: wf_ResourceSet_alt\<close>)
  then show ?thesis using assms(1)
    by (auto simp: wf_ResourceSet_alt AList.distinct_update)
qed

lemma caches_ok_Types_update:
  assumes "caches_ok rs" "te_caches_ok te"
  shows "caches_ok (rs\<lparr>Types := AList.update t te (Types rs)\<rparr>)"
proof -
  have "\<forall>p \<in> set (AList.update t te (Types rs)). te_caches_ok (snd p)"
    by (rule all_update) (use assms in \<open>auto simp: caches_ok_alt\<close>)
  then show ?thesis by (auto simp: caches_ok_alt)
qed

lemma lookup_wf_te: "wf_ResourceSet rs \<Longrightarrow> map_of (Types rs) t = Some te \<Longrightarrow> wf_te te"
  by (auto simp: wf_ResourceSet_alt dest!: map_of_SomeD)

lemma lookup_te_caches_ok: "caches_ok rs \<Longrightarrow> map_of (Types rs) t = Some te \<Longrightarrow> te_caches_ok te"
  by (auto simp: caches_ok_alt dest!: map_of_SomeD)

lemma lookup_wf_re: "wf_te te \<Longrightarrow> map_of (Resources te) r = Some re \<Longrightarrow> wf_re re"
  by (auto simp: wf_te_def dest!: map_of_SomeD)

lemma lookup_re_cache_ok:
  "te_caches_ok te \<Longrightarrow> map_of (Resources te) r = Some re \<Longrightarrow> re_cache_ok re"
  by (auto simp: te_caches_ok_def dest!: map_of_SomeD)

lemma wf_te_Resources_update:
  assumes "wf_te te" "wf_re re"
  shows "wf_te (te\<lparr>Resources := AList.update r re (Resources te)\<rparr>)"
proof -
  have "\<forall>p \<in> set (AList.update r re (Resources te)). wf_re (snd p)"
    by (rule all_update) (use assms in \<open>auto simp: wf_te_def\<close>)
  then show ?thesis using assms(1)
    by (auto simp: wf_te_def AList.distinct_update)
qed

lemma te_caches_ok_Resources_update:
  assumes "te_caches_ok te" "re_cache_ok re" "map_of (Resources te) r = Some re0"
  shows "te_caches_ok (te\<lparr>Resources := AList.update r re (Resources te)\<rparr>)"
proof -
  have "\<forall>p \<in> set (AList.update r re (Resources te)). re_cache_ok (snd p)"
    by (rule all_update) (use assms in \<open>auto simp: te_caches_ok_def\<close>)
  moreover have "te_cache_ok (te\<lparr>Resources := AList.update r re (Resources te)\<rparr>)"
    using assms
    by (simp add: te_caches_ok_def te_cache_ok_def keys_set_update_present split: option.splits)
  ultimately show ?thesis by (auto simp: te_caches_ok_def)
qed

lemma wf_WalkType_order: "wf_ResourceSet rs \<Longrightarrow> wf_ResourceSet (WalkType_order rs t)"
  by (auto simp: WalkType_order_def wf_Types_update wf_te_Order lookup_wf_te split: option.splits)

lemma caches_ok_WalkType_order:
  "wf_ResourceSet rs \<Longrightarrow> caches_ok rs \<Longrightarrow> caches_ok (WalkType_order rs t)"
  by (auto simp: WalkType_order_def caches_ok_Types_update te_caches_ok_Order lookup_wf_te
      lookup_te_caches_ok split: option.splits)

lemma wf_firstLang_order: "wf_ResourceSet rs \<Longrightarrow> wf_ResourceSet (firstLang_order rs t r)"
  using lookup_wf_re[OF lookup_wf_te]
  by (auto simp: firstLang_order_def wf_re_order lookup_wf_te split: option.splits
      intro!: wf_Types_update wf_te_Resources_update)

lemma caches_ok_firstLang_order:
  assumes "wf_ResourceSet rs" "caches_ok rs"
  shows "caches_ok (firstLang_order rs t r)"
proof (cases "map_of (Types rs) t")
  case None
  then show ?thesis using assms by (simp add: firstLang_order_def)
next
  case (Some te)
  show ?thesis
  proof (cases "map_of (Resources te) r")
    case None
    then show ?thesis using assms Some by (simp add: firstLang_order_def)
  next
    case re: (Some re)
    have "wf_re re" "re_cache_ok re"
      using assms Some re lookup_wf_te lookup_wf_re lookup_te_caches_ok lookup_re_cache_ok
      by blast+
    then have "re_cache_ok (ResourceEntry_order re)" by (rule re_cache_ok_order)
    then have "te_caches_ok (te\<lparr>Resources := AList.update r (ResourceEntry_order re) (Resources te)\<rparr>)"
      using te_caches_ok_Resources_update[OF lookup_te_caches_ok[OF assms(2) Some] _ re] by simp
    then show ?thesis using assms Some re
      by (simp add: firstLang_order_def caches_ok_Types_update)
  qed
qed

lemma invariants_apply_operation:
  assumes "wf_ResourceSet rs" "caches_ok rs"
  shows "wf_ResourceSet (apply_operation rs op) \<and> caches_ok (apply_operation rs op)"
  using assms
  by (cases op)
    (simp_all add: wf_Set caches_ok_Set wf_order caches_ok_order wf_WalkType_order
      caches_ok_WalkType_order wf_firstLang_order caches_ok_firstLang_order)

lemma invariants_foldl:
  assumes "wf_ResourceSet rs" "caches_ok rs"
  shows "wf_ResourceSet (foldl apply_operation rs ops) \<and> caches_ok (foldl apply_operation rs ops)"
  using assms
proof (induction ops arbitrary: rs)
  case Nil
  then show ?case by simp
next
  case (Cons op ops)
  have "wf_ResourceSet (apply_operation rs op) \<and> caches_ok (apply_operation rs op)"
    using Cons.prems by (rule invariants_apply_operation)
  then show ?case using Cons.IH by simp
qed

lemma invariants_run_operations:
  "wf_ResourceSet (run_operations ops) \<and> caches_ok (run_operations ops)"
  unfolding run_operations_def
  by (rule invariants_foldl)
    (simp_all add: wf_ResourceSet_def caches_ok_def empty_ResourceSet_def)

lemma map_update_same:
  "map_of al k = Some v \<Longrightarrow> f (k, v') = f (k, v) \<Longrightarrow> map f (AList.update k v' al) = map f al"
  by (induction al) (auto split: if_splits)

lemma Get_SomeD:
  assumes "ResourceSet_Get rs t r l \<noteq> None"
  obtains te re de where "map_of (Types rs) t = Some te" "map_of (Resources te) r = Some re"
    "map_of (re_Data re) l = Some de"
  using assms by (auto simp: ResourceSet_Get_def split: option.splits)

lemma cache_view_replace:
  assumes "ResourceSet_Get rs t r l \<noteq> None"
  shows "cache_view (ResourceSet_set rs t r l (Some d)) = cache_view rs"
proof -
  from assms obtain te re de where l: "map_of (Types rs) t = Some te"
    "map_of (Resources te) r = Some re" "map_of (re_Data re) l = Some de"
    by (rule Get_SomeD)
  have "map (\<lambda>(r, re). (r, re_OrderedKeys re))
          (AList.update r (re\<lparr>re_Data := AList.update l (de\<lparr>de_Data := d\<rparr>) (re_Data re)\<rparr>) (Resources te))
      = map (\<lambda>(r, re). (r, re_OrderedKeys re)) (Resources te)"
    by (rule map_update_same[OF l(2)]) simp
  then have "map (\<lambda>(t, te). (t, te_OrderedKeys te, NamesCount te,
            map (\<lambda>(r, re). (r, re_OrderedKeys re)) (Resources te)))
        (AList.update t (te_put te r l d) (Types rs))
      = map (\<lambda>(t, te). (t, te_OrderedKeys te, NamesCount te,
            map (\<lambda>(r, re). (r, re_OrderedKeys re)) (Resources te))) (Types rs)"
    using l by (intro map_update_same[OF l(1)]) (simp add: te_put_def re_put_def)
  then show ?thesis using l by (simp add: cache_view_def set_Types)
qed

lemma distinct_map_of_in: "distinct (map fst al) \<Longrightarrow> (k, v) \<in> set al \<Longrightarrow> map_of al k = Some v"
  by simp

lemma te_same_refl: "te_same_or_cleared (Some te) te"
  by (simp add: te_same_or_cleared_def)

lemma re_same_refl: "re_same_or_cleared (Some re) re"
  by (simp add: re_same_or_cleared_def)

lemma te_cleared_or_same_update:
  assumes "wf_ResourceSet rs" "te_same_or_cleared (map_of (Types rs) t) te1"
  shows "te_cleared_or_same rs (rs0\<lparr>Types := AList.update t te1 (Types rs)\<rparr>)"
proof -
  have "\<forall>p \<in> set (AList.update t te1 (Types rs)). te_same_or_cleared (map_of (Types rs) (fst p)) (snd p)"
  proof (rule all_update)
    show "\<forall>p\<in>set (Types rs). te_same_or_cleared (map_of (Types rs) (fst p)) (snd p)"
      using assms(1) by (auto simp: wf_ResourceSet_alt te_same_refl)
    show "te_same_or_cleared (map_of (Types rs) (fst (t, te1))) (snd (t, te1))"
      using assms(2) by simp
  qed
  then show ?thesis by (simp add: te_cleared_or_same_def case_prod_unfold)
qed

lemma te_cleared_or_same_delete:
  assumes "wf_ResourceSet rs"
  shows "te_cleared_or_same rs (rs0\<lparr>Types := AList.delete t (Types rs)\<rparr>)"
proof -
  have "\<forall>p \<in> set (AList.delete t (Types rs)). te_same_or_cleared (map_of (Types rs) (fst p)) (snd p)"
  proof (rule all_delete)
    show "\<forall>p\<in>set (Types rs). te_same_or_cleared (map_of (Types rs) (fst p)) (snd p)"
      using assms(1) by (auto simp: wf_ResourceSet_alt te_same_refl)
  qed
  then show ?thesis by (simp add: te_cleared_or_same_def case_prod_unfold)
qed

lemma re_old_same:
  assumes "wf_ResourceSet rs" "(t, te) \<in> set (Types rs)" "(r, re) \<in> set (Resources te)"
  shows "re_same_or_cleared (lookup_re rs t r) re"
proof -
  have "map_of (Types rs) t = Some te" using assms by (simp add: wf_ResourceSet_alt)
  moreover have "wf_te te" using assms by (auto simp: wf_ResourceSet_alt)
  then have "map_of (Resources te) r = Some re" using assms(3) by (simp add: wf_te_def)
  ultimately show ?thesis by (simp add: lookup_re_def re_same_refl)
qed

lemma re_cleared_or_same_update:
  assumes "wf_ResourceSet rs"
    "\<forall>p \<in> set (Resources te1). re_same_or_cleared (lookup_re rs t (fst p)) (snd p)"
  shows "re_cleared_or_same rs (rs0\<lparr>Types := AList.update t te1 (Types rs)\<rparr>)"
proof -
  have "\<forall>p \<in> set (AList.update t te1 (Types rs)).
      \<forall>q \<in> set (Resources (snd p)). re_same_or_cleared (lookup_re rs (fst p) (fst q)) (snd q)"
  proof (rule all_update)
    show "\<forall>p\<in>set (Types rs). \<forall>q\<in>set (Resources (snd p)).
        re_same_or_cleared (lookup_re rs (fst p) (fst q)) (snd q)"
      using re_old_same[OF assms(1)] by auto
    show "\<forall>q\<in>set (Resources (snd (t, te1))).
        re_same_or_cleared (lookup_re rs (fst (t, te1)) (fst q)) (snd q)"
      using assms(2) by simp
  qed
  then show ?thesis by (simp add: re_cleared_or_same_def case_prod_unfold)
qed

lemma re_cleared_or_same_delete:
  assumes "wf_ResourceSet rs"
  shows "re_cleared_or_same rs (rs0\<lparr>Types := AList.delete t (Types rs)\<rparr>)"
proof -
  have "\<forall>p \<in> set (AList.delete t (Types rs)).
      \<forall>q \<in> set (Resources (snd p)). re_same_or_cleared (lookup_re rs (fst p) (fst q)) (snd q)"
  proof (rule all_delete)
    show "\<forall>p\<in>set (Types rs). \<forall>q\<in>set (Resources (snd p)).
        re_same_or_cleared (lookup_re rs (fst p) (fst q)) (snd q)"
      using re_old_same[OF assms(1)] by auto
  qed
  then show ?thesis by (simp add: re_cleared_or_same_def case_prod_unfold)
qed

lemma re_put_same_or_cleared: "re_same_or_cleared (Some re) (re_put re l d)"
  by (auto simp: re_same_or_cleared_def re_put_def keys_set_update_present split: option.splits)

lemma re_put_new_cleared: "re_same_or_cleared old (re_put \<lparr>re_Data = [], re_OrderedKeys = None\<rparr> l d)"
  by (simp add: re_same_or_cleared_def re_put_def)

lemma te_put_same_or_cleared: "te_same_or_cleared (Some te) (te_put te r l d)"
  by (auto simp: te_same_or_cleared_def te_put_def keys_set_update_present split: option.splits)

lemma te_put_new_cleared:
  "te_same_or_cleared old (te_put \<lparr>Resources = [], te_OrderedKeys = None, NamesCount = 0\<rparr> r l d)"
  by (simp add: te_same_or_cleared_def te_put_def)

lemma te_cleared_or_same_set:
  assumes "wf_ResourceSet rs"
  shows "te_cleared_or_same rs (ResourceSet_set rs t r l (Some d))"
proof -
  let ?te = "case map_of (Types rs) t of
                  None \<Rightarrow> \<lparr>Resources = [], te_OrderedKeys = None, NamesCount = 0\<rparr>
                | Some te \<Rightarrow> te"
  have "te_same_or_cleared (map_of (Types rs) t) (te_put ?te r l d)"
    by (cases "map_of (Types rs) t") (simp_all add: te_put_new_cleared te_put_same_or_cleared)
  then have "te_cleared_or_same rs (rs\<lparr>Types := AList.update t (te_put ?te r l d) (Types rs)\<rparr>)"
    by (rule te_cleared_or_same_update[OF assms])
  then show ?thesis by (simp add: te_cleared_or_same_def set_Types)
qed

lemma re_entries_te_put:
  assumes "wf_ResourceSet rs" "map_of (Types rs) t = Some te"
  shows "\<forall>p \<in> set (Resources (te_put te r l d)). re_same_or_cleared (lookup_re rs t (fst p)) (snd p)"
proof -
  have wte: "wf_te te" using assms by (rule lookup_wf_te)
  have old: "\<forall>p\<in>set (Resources te). re_same_or_cleared (lookup_re rs t (fst p)) (snd p)"
    using wte assms(2) by (auto simp: lookup_re_def wf_te_def re_same_refl)
  show ?thesis
  proof (cases "map_of (Resources te) r")
    case None
    have "\<forall>p \<in> set (AList.update r (re_put \<lparr>re_Data = [], re_OrderedKeys = None\<rparr> l d) (Resources te)).
        re_same_or_cleared (lookup_re rs t (fst p)) (snd p)"
      by (rule all_update) (use old in \<open>simp_all add: re_put_new_cleared\<close>)
    then show ?thesis using None by (simp add: te_put_def)
  next
    case (Some re)
    have "\<forall>p \<in> set (AList.update r (re_put re l d) (Resources te)).
        re_same_or_cleared (lookup_re rs t (fst p)) (snd p)"
      by (rule all_update)
        (use old Some assms(2) in \<open>simp_all add: re_put_same_or_cleared lookup_re_def\<close>)
    then show ?thesis using Some by (simp add: te_put_def)
  qed
qed

lemma re_cleared_or_same_set:
  assumes "wf_ResourceSet rs"
  shows "re_cleared_or_same rs (ResourceSet_set rs t r l (Some d))"
proof -
  let ?te = "case map_of (Types rs) t of
                  None \<Rightarrow> \<lparr>Resources = [], te_OrderedKeys = None, NamesCount = 0\<rparr>
                | Some te \<Rightarrow> te"
  have "\<forall>p \<in> set (Resources (te_put ?te r l d)). re_same_or_cleared (lookup_re rs t (fst p)) (snd p)"
  proof (cases "map_of (Types rs) t")
    case None
    then show ?thesis by (simp add: te_put_def re_put_new_cleared)
  next
    case (Some te)
    then show ?thesis using re_entries_te_put[OF assms Some] by simp
  qed
  then have "re_cleared_or_same rs (rs\<lparr>Types := AList.update t (te_put ?te r l d) (Types rs)\<rparr>)"
    by (rule re_cleared_or_same_update[OF assms])
  then show ?thesis by (simp add: re_cleared_or_same_def set_Types)
qed

lemma te_cleared_or_same_refl: "wf_ResourceSet rs \<Longrightarrow> te_cleared_or_same rs rs"
  by (auto simp: te_cleared_or_same_def wf_ResourceSet_alt te_same_refl)

lemma re_cleared_or_same_refl: "wf_ResourceSet rs \<Longrightarrow> re_cleared_or_same rs rs"
  using re_old_same by (auto simp: re_cleared_or_same_def)

lemma cleared_or_same_delete:
  assumes "wf_ResourceSet rs"
  shows "te_cleared_or_same rs (ResourceSet_delete rs t r l)
       \<and> re_cleared_or_same rs (ResourceSet_delete rs t r l)"
proof (cases "map_of (Types rs) t")
  case None
  then show ?thesis using assms
    by (simp add: ResourceSet_delete_def te_cleared_or_same_refl re_cleared_or_same_refl)
next
  case (Some te)
  have wte: "wf_te te" using assms Some by (rule lookup_wf_te)
  have old: "\<forall>p\<in>set (Resources te). re_same_or_cleared (lookup_re rs t (fst p)) (snd p)"
    using wte Some by (auto simp: lookup_re_def wf_te_def re_same_refl)
  show ?thesis
  proof (cases "map_of (Resources te) r")
    case None
    then show ?thesis using assms Some
      by (simp add: ResourceSet_delete_def te_cleared_or_same_refl re_cleared_or_same_refl)
  next
    case re: (Some re)
    let ?re = "re\<lparr>re_Data := AList.delete l (re_Data re), re_OrderedKeys := None\<rparr>"
    let ?te1 = "te\<lparr>Resources := AList.update r ?re (Resources te)\<rparr>"
    let ?te2 = "te\<lparr>Resources := AList.delete r (Resources te), te_OrderedKeys := None\<rparr>"
    have t1: "te_same_or_cleared (map_of (Types rs) t) ?te1"
      using Some re by (simp add: te_same_or_cleared_def keys_set_update_present)
    have t2: "te_same_or_cleared (map_of (Types rs) t) ?te2"
      by (simp add: te_same_or_cleared_def)
    have r1: "\<forall>p \<in> set (Resources ?te1). re_same_or_cleared (lookup_re rs t (fst p)) (snd p)"
      using all_update[OF old, of r ?re] by (simp add: re_same_or_cleared_def)
    have r2: "\<forall>p \<in> set (Resources ?te2). re_same_or_cleared (lookup_re rs t (fst p)) (snd p)"
      using all_delete[OF old, of r] by simp
    show ?thesis
      using Some re
        te_cleared_or_same_update[OF assms t1, where ?rs0.0 = rs]
        te_cleared_or_same_update[OF assms t2, where ?rs0.0 = rs]
        re_cleared_or_same_update[OF assms r1, where ?rs0.0 = rs]
        re_cleared_or_same_update[OF assms r2, where ?rs0.0 = rs]
        te_cleared_or_same_delete[OF assms, where ?rs0.0 = rs and t = t]
        re_cleared_or_same_delete[OF assms, where ?rs0.0 = rs and t = t]
      by (simp add: ResourceSet_delete_def Let_def)
  qed
qed

lemma cleared_or_same_Set:
  assumes "wf_ResourceSet rs"
  shows "te_cleared_or_same rs (fst (ResourceSet_Set rs t r l d))
       \<and> re_cleared_or_same rs (fst (ResourceSet_Set rs t r l d))"
proof (cases "snd (ResourceSet_Set rs t r l d)")
  case (Some err)
  then have "fst (ResourceSet_Set rs t r l d) = rs"
    by (auto simp: ResourceSet_Set_def split: option.splits)
  then show ?thesis using assms
    by (simp add: te_cleared_or_same_refl re_cleared_or_same_refl)
next
  case None
  then have e: "fst (ResourceSet_Set rs t r l d) = ResourceSet_set rs t r l d"
    by (auto simp: ResourceSet_Set_def split: option.splits)
  show ?thesis
  proof (cases d)
    case None
    then show ?thesis using cleared_or_same_delete[OF assms] e by (simp add: set_None)
  next
    case (Some a)
    then show ?thesis using te_cleared_or_same_set[OF assms] re_cleared_or_same_set[OF assms] e
      by simp
  qed
qed

lemma Set_replace:
  assumes "checkIdentifier t = None" "checkIdentifier r = None"
  shows "fst (ResourceSet_Set rs t r l d) = ResourceSet_set rs t r l d"
  using assms by (simp add: ResourceSet_Set_def)

text \<open>
  Claim C10. After any sequence of calls of \<open>Set\<close>, interleaved with any of the calls
  that fill the order caches, every cached key slice that is not nil lists exactly the
  keys of its map in identifier order, and the cached count of names is the number of
  leading names. Replacing the payload of an existing triple leaves every cache as it
  was; a call that changes the key set of a level leaves the cache of that level nil.
\<close>

theorem order_caches_consistent:
  "caches_ok (run_operations ops)
   \<and> (ResourceSet_Get (run_operations ops) t r l \<noteq> None
        \<longrightarrow> cache_view (fst (ResourceSet_Set (run_operations ops) t r l (Some d)))
            = cache_view (run_operations ops))
   \<and> te_cleared_or_same (run_operations ops) (fst (ResourceSet_Set (run_operations ops) t r l dd))
   \<and> re_cleared_or_same (run_operations ops) (fst (ResourceSet_Set (run_operations ops) t r l dd))"
proof (intro conjI impI)
  show "caches_ok (run_operations ops)"
    using invariants_run_operations by simp
next
  assume g: "ResourceSet_Get (run_operations ops) t r l \<noteq> None"
  show "cache_view (fst (ResourceSet_Set (run_operations ops) t r l (Some d)))
      = cache_view (run_operations ops)"
  proof (cases "snd (ResourceSet_Set (run_operations ops) t r l (Some d))")
    case None
    then have "fst (ResourceSet_Set (run_operations ops) t r l (Some d))
        = ResourceSet_set (run_operations ops) t r l (Some d)"
      by (auto simp: ResourceSet_Set_def split: option.splits)
    then show ?thesis using cache_view_replace[OF g] by simp
  next
    case (Some err)
    then have "fst (ResourceSet_Set (run_operations ops) t r l (Some d)) = run_operations ops"
      by (auto simp: ResourceSet_Set_def split: option.splits)
    then show ?thesis by simp
  qed
next
  show "te_cleared_or_same (run_operations ops)
      (fst (ResourceSet_Set (run_operations ops) t r l dd))"
    using cleared_or_same_Set invariants_run_operations by blast
next
  show "re_cleared_or_same (run_operations ops)
      (fst (ResourceSet_Set (run_operations ops) t r l dd))"
    using cleared_or_same_Set invariants_run_operations by blast
qed


lemma example_operations_caches:
  "cache_view (run_operations example_operations)
   = [(ID 3, Some [Name [97], ID 1], 1, [(ID 1, Some [0]), (Name [97], Some [0])])]"
  by code_simp

lemma example_operations_Get:
  "ResourceSet_Get (run_operations example_operations) (ID 3) (ID 1) 0 = Some [1]"
  by code_simp

theorem order_caches_consistent_witness:
  "caches_ok (run_operations example_operations)
   \<and> cache_view (run_operations example_operations)
       = [(ID 3, Some [Name [97], ID 1], 1, [(ID 1, Some [0]), (Name [97], Some [0])])]
   \<and> ResourceSet_Get (run_operations example_operations) (ID 3) (ID 1) 0 \<noteq> None
   \<and> cache_view (fst (ResourceSet_Set (run_operations example_operations) (ID 3) (ID 1) 0 (Some [9])))
       = cache_view (run_operations example_operations)
   \<and> te_cleared_or_same (run_operations example_operations)
       (fst (ResourceSet_Set (run_operations example_operations) (ID 3) (ID 1) 0 None))
   \<and> re_cleared_or_same (run_operations example_operations)
       (fst (ResourceSet_Set (run_operations example_operations) (ID 3) (ID 1) 0 None))"
  using order_caches_consistent [of example_operations "ID 3" "ID 1" 0 "[9]" None]
    example_operations_caches example_operations_Get
  by simp

section \<open>The decoder's bounds check\<close>

















section \<open>The encoder in closed form\<close>

lemma offsets_append:
  "offsets off (xs @ ys) = offsets off xs @ offsets (off + sum_list xs) ys"
  by (induction xs arbitrary: off) (auto simp: add.assoc)

lemma length_offsets [simp]: "length (offsets off xs) = length xs"
  by (induction xs arbitrary: off) auto

lemma write_entries_closed:
  assumes "\<forall>k \<in> set ks. (if isName then is_Name k else is_ID k) \<and> sz k \<noteq> None"
  shows "write_entries sz isName ks s =
     Some (concat (map2 (enc_entry (nameOffset s) True) ks (offsets (offset s) (map (\<lambda>k. the (sz k)) ks))),
           s\<lparr>offset := offset s + sum_list (map (\<lambda>k. the (sz k)) ks)\<rparr>)"
  using assms
proof (induction ks arbitrary: s)
  case Nil
  then show ?case by simp
next
  case (Cons k ks)
  from Cons.prems obtain n where n: "sz k = Some n" by auto
  have kk: "if isName then is_Name k else is_ID k" using Cons.prems by simp
  have i: "(if isName then map_option (nameOffset_get s) (the_Name k)
              else map_option unat (the_ID k)) = Some i
      \<Longrightarrow> writeDirectoryEntry i (offset s) isName True = enc_entry (nameOffset s) True k (offset s)" for i
    using kk by (cases k; cases isName) (auto simp: enc_entry_def nameOffset_get_def)
  have e: "\<exists>i. (if isName then map_option (nameOffset_get s) (the_Name k)
              else map_option unat (the_ID k)) = Some i"
    using kk by (cases k; cases isName) auto
  then obtain i where ii: "(if isName then map_option (nameOffset_get s) (the_Name k)
              else map_option unat (the_ID k)) = Some i" by blast
  have ih: "write_entries sz isName ks (s\<lparr>offset := offset s + n\<rparr>) =
     Some (concat (map2 (enc_entry (nameOffset s) True) ks (offsets (offset s + n) (map (\<lambda>k. the (sz k)) ks))),
           s\<lparr>offset := offset s + n + sum_list (map (\<lambda>k. the (sz k)) ks)\<rparr>)"
    using Cons.IH[of "s\<lparr>offset := offset s + n\<rparr>"] Cons.prems by simp
  show ?case
    using n ii i[OF ii] ih by (simp add: add.assoc)
qed

lemma sorted_takeWhile_Name:
  assumes "sorted (ks :: Identifier list)"
  shows "takeWhile is_Name ks = filter is_Name ks" "dropWhile is_Name ks = filter is_ID ks"
proof -
  have *: "\<forall>x \<in> set (dropWhile is_Name ks). is_ID x"
    using assms
  proof (induction ks)
    case Nil
    then show ?case by simp
  next
    case (Cons a ks)
    show ?case
    proof (cases "is_Name a")
      case True
      then show ?thesis using Cons by simp
    next
      case False
      then have "\<forall>x \<in> set ks. \<not> is_Name x"
        using Cons.prems by (cases a) (auto simp: less_eq_Identifier_def elim!: is_Name.elims)
      then show ?thesis using False by (auto simp: is_ID_not_Name)
    qed
  qed
  have "filter is_Name ks = filter is_Name (takeWhile is_Name ks @ dropWhile is_Name ks)" by simp
  also have "\<dots> = takeWhile is_Name ks @ filter is_Name (dropWhile is_Name ks)"
    by (simp del: takeWhile_dropWhile_id) (metis (mono_tags) filter_True set_takeWhileD)
  also have "filter is_Name (dropWhile is_Name ks) = []"
    using * by (auto simp: is_ID_not_Name filter_empty_conv)
  finally show "takeWhile is_Name ks = filter is_Name ks" by simp
  have "filter is_ID ks = filter is_ID (takeWhile is_Name ks @ dropWhile is_Name ks)" by simp
  also have "\<dots> = filter is_ID (takeWhile is_Name ks) @ dropWhile is_Name ks"
    using * by (simp del: takeWhile_dropWhile_id)
  also have "filter is_ID (takeWhile is_Name ks) = []"
    by (auto simp: is_ID_not_Name filter_empty_conv dest: set_takeWhileD)
  finally show "dropWhile is_Name ks = filter is_ID ks" by simp
qed


lemma zip_map2_append:
  "length xs = length us \<Longrightarrow> map2 f (xs @ ys) (us @ vs) = map2 f xs us @ map2 f ys vs"
  by simp

lemma write_names_then_ids:
  assumes "sorted (ks :: Identifier list)" "\<forall>k \<in> set ks. sz k \<noteq> None"
    and nc: "nc = length (takeWhile is_Name ks)"
  shows "slice_to ks nc = Some (takeWhile is_Name ks)"
    and "slice_from ks nc = Some (dropWhile is_Name ks)"
    and "write_entries sz True (takeWhile is_Name ks) s =
      Some (concat (map2 (enc_entry (nameOffset s) True) (takeWhile is_Name ks)
               (offsets (offset s) (map (\<lambda>k. the (sz k)) (takeWhile is_Name ks)))),
            s\<lparr>offset := offset s + sum_list (map (\<lambda>k. the (sz k)) (takeWhile is_Name ks))\<rparr>)"
    and "write_entries sz False (dropWhile is_Name ks) s1 =
      Some (concat (map2 (enc_entry (nameOffset s1) True) (dropWhile is_Name ks)
               (offsets (offset s1) (map (\<lambda>k. the (sz k)) (dropWhile is_Name ks)))),
            s1\<lparr>offset := offset s1 + sum_list (map (\<lambda>k. the (sz k)) (dropWhile is_Name ks))\<rparr>)"
proof -
  show "slice_to ks nc = Some (takeWhile is_Name ks)"
    using nc by (simp add: slice_to_def length_takeWhile_le takeWhile_eq_take[symmetric])
  show "slice_from ks nc = Some (dropWhile is_Name ks)"
    using nc by (simp add: slice_from_def length_takeWhile_le dropWhile_eq_drop[symmetric])
  have n: "\<forall>k \<in> set (takeWhile is_Name ks). (if True then is_Name k else is_ID k) \<and> sz k \<noteq> None"
    using assms(2) by (auto dest: set_takeWhileD)
  show "write_entries sz True (takeWhile is_Name ks) s =
      Some (concat (map2 (enc_entry (nameOffset s) True) (takeWhile is_Name ks)
               (offsets (offset s) (map (\<lambda>k. the (sz k)) (takeWhile is_Name ks)))),
            s\<lparr>offset := offset s + sum_list (map (\<lambda>k. the (sz k)) (takeWhile is_Name ks))\<rparr>)"
    by (rule write_entries_closed[OF n])
  have "\<forall>k \<in> set (dropWhile is_Name ks). is_ID k"
    using sorted_takeWhile_Name(2)[OF assms(1)] by simp
  then have i: "\<forall>k \<in> set (dropWhile is_Name ks). (if False then is_Name k else is_ID k) \<and> sz k \<noteq> None"
    using assms(2) by (auto dest: set_dropWhileD)
  show "write_entries sz False (dropWhile is_Name ks) s1 =
      Some (concat (map2 (enc_entry (nameOffset s1) True) (dropWhile is_Name ks)
               (offsets (offset s1) (map (\<lambda>k. the (sz k)) (dropWhile is_Name ks)))),
            s1\<lparr>offset := offset s1 + sum_list (map (\<lambda>k. the (sz k)) (dropWhile is_Name ks))\<rparr>)"
    by (rule write_entries_closed[OF i])
qed

lemma entries_split:
  "concat (map2 f (takeWhile P ks) (offsets off (map g (takeWhile P ks))))
   @ concat (map2 f (dropWhile P ks)
       (offsets (off + sum_list (map g (takeWhile P ks))) (map g (dropWhile P ks))))
   = concat (map2 f ks (offsets off (map g ks)))"
proof -
  have "map2 f ks (offsets off (map g ks))
      = map2 f (takeWhile P ks @ dropWhile P ks)
          (offsets off (map g (takeWhile P ks) @ map g (dropWhile P ks)))"
    by (simp add: map_append[symmetric] del: map_append)
  also have "\<dots> = map2 f (takeWhile P ks) (offsets off (map g (takeWhile P ks)))
      @ map2 f (dropWhile P ks)
          (offsets (off + sum_list (map g (takeWhile P ks))) (map g (dropWhile P ks)))"
    unfolding offsets_append by (rule zip_map2_append) simp
  finally show ?thesis by simp
qed

lemma sum_split:
  "sum_list (map g (takeWhile P ks)) + sum_list (map g (dropWhile P ks)) = sum_list (map g ks)"
  by (metis map_append sum_list_append takeWhile_dropWhile_id)

lemma count_split_sorted:
  assumes "sorted (ks :: Identifier list)"
  shows "length (takeWhile is_Name ks) = length (filter is_Name ks)"
    and "length ks - length (takeWhile is_Name ks) = length (filter is_ID ks)"
proof -
  show "length (takeWhile is_Name ks) = length (filter is_Name ks)"
    using sorted_takeWhile_Name(1)[OF assms] by simp
  have "length ks = length (takeWhile is_Name ks) + length (dropWhile is_Name ks)"
    by (metis length_append takeWhile_dropWhile_id)
  then show "length ks - length (takeWhile is_Name ks) = length (filter is_ID ks)"
    using sorted_takeWhile_Name(2)[OF assms] by simp
qed

lemma count_names_ids: "length ks - length (filter is_Name ks) = length (filter is_ID ks)"
proof -
  have "length (filter is_Name ks) + length (filter is_ID ks) = length ks"
    by (induction ks) (auto simp: is_ID_not_Name)
  then show ?thesis by simp
qed

lemma TypeEntry_write_closed:
  assumes "te_OrderedKeys te = Some ks" "sorted ks" "NamesCount te = length (takeWhile is_Name ks)"
    "\<forall>k \<in> set ks. map_of (Resources te) k \<noteq> None"
  shows "TypeEntry_write te s =
    Some (enc_dir (nameOffset s) True ks
            (offsets (offset s) (map (\<lambda>k. ResourceEntry_size (the (map_of (Resources te) k))) ks)),
          s\<lparr>offset := offset s
              + sum_list (map (\<lambda>k. ResourceEntry_size (the (map_of (Resources te) k))) ks)\<rparr>)"
proof -
  let ?sz = "\<lambda>k. map_option ResourceEntry_size (map_of (Resources te) k)"
  have sz: "\<forall>k \<in> set ks. ?sz k \<noteq> None" using assms(4) by simp
  have g: "(\<lambda>k. the (?sz k)) k = ResourceEntry_size (the (map_of (Resources te) k))"
    if "k \<in> set ks" for k
    using assms(4) that by (auto simp: option.map_sel)
  have m: "map (\<lambda>k. the (?sz k)) ks
      = map (\<lambda>k. ResourceEntry_size (the (map_of (Resources te) k))) ks"
    using g by (intro map_cong) auto
  note w = write_names_then_ids[OF assms(2) sz refl]
  show ?thesis
    unfolding TypeEntry_write_def
    apply (simp add: assms(1,3) keys_of_def w)
    apply (simp add: entries_split sum_split add.assoc enc_dir_def
        count_split_sorted[OF assms(2)] count_names_ids m)
    done
qed

lemma entries_split_at:
  assumes "off' = off + sum_list (map g (takeWhile P ks))"
  shows "concat (map2 f (takeWhile P ks) (offsets off (map g (takeWhile P ks))))
   @ concat (map2 f (dropWhile P ks) (offsets off' (map g (dropWhile P ks))))
   = concat (map2 f ks (offsets off (map g ks)))"
  unfolding assms by (rule entries_split)

lemma writeTypeDir_closed:
  assumes "sorted (orderedKeys s)" "namesCount s = length (takeWhile is_Name (orderedKeys s))"
    "\<forall>k \<in> set (orderedKeys s). map_of (Types rs) k \<noteq> None"
  shows "ResourceSet_writeTypeDir rs s =
    Some (enc_dir (nameOffset s) True (orderedKeys s)
            (offsets (offset s + (16 + 8 * length (orderedKeys s)))
               (map (\<lambda>k. TypeEntry_size (the (map_of (Types rs) k))) (orderedKeys s))),
          s\<lparr>offset := offset s + (16 + 8 * length (orderedKeys s))
              + sum_list (map (\<lambda>k. TypeEntry_size (the (map_of (Types rs) k))) (orderedKeys s))\<rparr>)"
proof -
  let ?ks = "orderedKeys s"
  let ?sz = "\<lambda>k. map_option TypeEntry_size (map_of (Types rs) k)"
  have sz: "\<forall>k \<in> set ?ks. ?sz k \<noteq> None" using assms(3) by simp
  have g: "(\<lambda>k. the (?sz k)) k = TypeEntry_size (the (map_of (Types rs) k))"
    if "k \<in> set ?ks" for k
    using assms(3) that by (auto simp: option.map_sel)
  have m: "map (\<lambda>k. the (?sz k)) ?ks
      = map (\<lambda>k. TypeEntry_size (the (map_of (Types rs) k))) ?ks"
    using g by (intro map_cong) auto
  note w = write_names_then_ids[OF assms(1) sz refl]
  show ?thesis
    unfolding ResourceSet_writeTypeDir_def
    apply (simp add: assms(2) w sizeOfDirTable_def sizeOfDirEntry_def)
    apply (simp add: entries_split_at sum_split add.assoc enc_dir_def
        count_split_sorted[OF assms(1)] count_names_ids m mult.commute)
    done
qed

lemma ResourceEntry_write_loop_closed:
  "ResourceEntry_write_loop ls s =
     (concat (map2 (enc_entry [] False) (map ID ls) (offsets (offset s) (replicate (length ls) 16))),
      s\<lparr>relocAddr := relocAddr s @ offsets (offset s) (replicate (length ls) 16),
        offset := offset s + 16 * length ls\<rparr>)"
proof (induction ls arbitrary: s)
  case Nil
  then show ?case by simp
next
  case (Cons l ls)
  show ?case
    by (simp add: Cons.IH sizeOfDataEntry_def enc_entry_def)
qed

lemma filter_is_Name_ID [simp]: "filter is_Name (map ID ls) = []" "filter is_ID (map ID ls) = map ID ls"
  by (induction ls) auto

lemma ResourceEntry_write_closed:
  assumes "re_rel re lt"
  shows "ResourceEntry_write re s =
     (enc_dir [] False (map (ID \<circ> fst) lt) (offsets (offset s) (replicate (length lt) 16)),
      s\<lparr>relocAddr := relocAddr s @ offsets (offset s) (replicate (length lt) 16),
        offset := offset s + 16 * length lt\<rparr>)"
  using assms
  by (simp add: ResourceEntry_write_def ResourceEntry_write_loop_closed re_rel_def keys_of_def
      enc_dir_def map_map[symmetric] del: map_map)

lemma map2_offsets_append:
  "map2 f (xs @ ys) (offsets off (map g (xs @ ys)))
   = map2 f xs (offsets off (map g xs))
     @ map2 f ys (offsets (off + sum_list (map g xs)) (map g ys))"
  by (simp add: offsets_append)

lemma te_rel_sizes:
  assumes "te_rel te rt"
  shows "map (\<lambda>k. ResourceEntry_size (the (map_of (Resources te) k))) (map fst rt) = re_sizes rt"
proof -
  have "ResourceEntry_size (the (map_of (Resources te) (fst p))) = (case p of (r, ls) \<Rightarrow> 16 + 8 * length ls)"
    if "p \<in> set rt" for p
  proof -
    obtain r lt where p: "p = (r, lt)" by (cases p)
    with that assms obtain re where "map_of (Resources te) r = Some re" "re_rel re lt"
      by (auto simp: te_rel_def)
    then show ?thesis
      by (simp add: p ResourceEntry_size_def re_rel_def sizeOfDirTable_def sizeOfDirEntry_def)
  qed
  then show ?thesis by (simp add: re_sizes_def)
qed

lemma TypeEntry_write_tree:
  assumes "te_rel te rt"
  shows "TypeEntry_write te s =
    Some (enc_dir (nameOffset s) True (map fst rt) (offsets (offset s) (re_sizes rt)),
          s\<lparr>offset := offset s + sum_list (re_sizes rt)\<rparr>)"
proof -
  have l: "\<forall>k \<in> set (map fst rt). map_of (Resources te) k \<noteq> None"
    using assms by (fastforce simp: te_rel_def)
  have "TypeEntry_write te s =
    Some (enc_dir (nameOffset s) True (map fst rt)
            (offsets (offset s)
               (map (\<lambda>k. ResourceEntry_size (the (map_of (Resources te) k))) (map fst rt))),
          s\<lparr>offset := offset s
              + sum_list (map (\<lambda>k. ResourceEntry_size (the (map_of (Resources te) k)))
                  (map fst rt))\<rparr>)"
  proof (rule TypeEntry_write_closed)
    show "te_OrderedKeys te = Some (map fst rt)" using assms by (simp add: te_rel_def)
    show "sorted (map fst rt)" using assms by (simp add: te_rel_def)
    show "NamesCount te = length (takeWhile is_Name (map fst rt))"
      using assms by (simp add: te_rel_def)
    show "\<forall>k\<in>set (map fst rt). map_of (Resources te) k \<noteq> None" by (rule l)
  qed
  then show ?thesis unfolding te_rel_sizes[OF assms] .
qed

lemma tree_of_Cons:
  "tree_of rs ((t, rt) # T) = ((\<exists>te. map_of (Types rs) t = Some te \<and> te_rel te rt) \<and> tree_of rs T)"
  by (simp add: tree_of_def)

lemma writeResDirs_tree:
  assumes "tree_of rs T"
  shows "ResourceSet_writeResDirs rs (map fst T) s =
    Some (concat (map2 (\<lambda>(t, rt) base.
              enc_dir (nameOffset s) True (map fst rt) (offsets base (re_sizes rt)))
            T (offsets (offset s) (map (\<lambda>(t, rt). sum_list (re_sizes rt)) T))),
          s\<lparr>offset := offset s + sum_list (map (\<lambda>(t, rt). sum_list (re_sizes rt)) T)\<rparr>)"
  using assms
proof (induction T arbitrary: s)
  case Nil
  then show ?case by simp
next
  case (Cons p T)
  obtain t rt where p: "p = (t, rt)" by (cases p)
  from Cons.prems obtain te where te: "map_of (Types rs) t = Some te" "te_rel te rt"
    and T: "tree_of rs T"
    by (auto simp: p tree_of_Cons)
  show ?case
    by (simp add: p te TypeEntry_write_tree[OF te(2)] Cons.IH[OF T] add.assoc)
qed

lemma offsets_replicate_add:
  "offsets off (replicate (m + n) c) = offsets off (replicate m c) @ offsets (off + c * m) (replicate n c)"
  by (simp add: replicate_add offsets_append sum_list_replicate mult.commute)

lemma all_res_Cons [simp]: "all_res ((t, rt) # T) = rt @ all_res T"
  by (simp add: all_res_def)

lemma all_res_Nil [simp]: "all_res [] = []"
  by (simp add: all_res_def)

lemma all_data_Cons: "all_data ((t, rt) # T) = concat (map snd rt) @ all_data T"
  by (simp add: all_data_def)

lemma all_data_Nil [simp]: "all_data [] = []"
  by (simp add: all_data_def)

lemma sum_lang_sizes: "sum_list (map (\<lambda>(r, lt). 16 * length lt) rt) = 16 * length (concat (map snd rt))"
  by (induction rt) (auto simp: algebra_simps)

lemma te_rel_Cons:
  assumes "\<forall>(r, lt) \<in> set ((r0, lt0) # rt). \<exists>re. map_of (Resources te) r = Some re \<and> re_rel re lt"
  obtains re where "map_of (Resources te) r0 = Some re" "re_rel re lt0"
    "\<forall>(r, lt) \<in> set rt. \<exists>re. map_of (Resources te) r = Some re \<and> re_rel re lt"
  using assms by auto

lemma writeLangDirs_type_tree:
  assumes "\<forall>(r, lt) \<in> set rt. \<exists>re. map_of (Resources te) r = Some re \<and> re_rel re lt"
  shows "writeLangDirs_type te (map fst rt) s =
    Some (concat (map2 (\<lambda>(r, lt) base.
              enc_dir [] False (map (ID \<circ> fst) lt) (offsets base (replicate (length lt) 16)))
            rt (offsets (offset s) (map (\<lambda>(r, lt). 16 * length lt) rt))),
          s\<lparr>relocAddr := relocAddr s
                @ offsets (offset s) (replicate (length (concat (map snd rt))) 16),
            offset := offset s + 16 * length (concat (map snd rt))\<rparr>)"
  using assms
proof (induction rt arbitrary: s)
  case Nil
  then show ?case by simp
next
  case (Cons p rt)
  obtain r0 lt0 where p: "p = (r0, lt0)" by (cases p)
  from Cons.prems obtain re where re: "map_of (Resources te) r0 = Some re" "re_rel re lt0"
    and rest: "\<forall>(r, lt) \<in> set rt. \<exists>re. map_of (Resources te) r = Some re \<and> re_rel re lt"
    unfolding p by (rule te_rel_Cons)
  show ?case
    by (simp add: p re ResourceEntry_write_closed[OF re(2)] Cons.IH[OF rest]
        offsets_replicate_add add_mult_distrib2 add.assoc comp_def)
qed

lemma writeLangDirs_tree:
  assumes "tree_of rs T"
  shows "ResourceSet_writeLangDirs rs (map fst T) s =
    Some (concat (map2 (\<lambda>(r, lt) base.
              enc_dir [] False (map (ID \<circ> fst) lt) (offsets base (replicate (length lt) 16)))
            (all_res T) (offsets (offset s) (map (\<lambda>(r, lt). 16 * length lt) (all_res T)))),
          s\<lparr>relocAddr := relocAddr s @ offsets (offset s) (replicate (length (all_data T)) 16),
            offset := offset s + 16 * length (all_data T)\<rparr>)"
  using assms
proof (induction T arbitrary: s)
  case Nil
  then show ?case by simp
next
  case (Cons p T)
  obtain t rt where p: "p = (t, rt)" by (cases p)
  from Cons.prems obtain te where te: "map_of (Types rs) t = Some te" "te_rel te rt"
    and T: "tree_of rs T"
    by (auto simp: p tree_of_Cons)
  have k: "keys_of (te_OrderedKeys te) = map fst rt" using te(2) by (simp add: te_rel_def keys_of_def)
  have r: "\<forall>(r, lt) \<in> set rt. \<exists>re. map_of (Resources te) r = Some re \<and> re_rel re lt"
    using te(2) by (simp add: te_rel_def)
  show ?case
    by (simp add: p te(1) k writeLangDirs_type_tree[OF r] Cons.IH[OF T] all_data_Cons
        offsets_append sum_lang_sizes offsets_replicate_add add_mult_distrib2 add.assoc comp_def)
qed

lemma writeDataIndex_res_tree:
  assumes "\<forall>(l, d) \<in> set lt. \<exists>de. map_of (re_Data re) l = Some de \<and> de_Data de = d"
  shows "writeDataIndex_res re (map fst lt) s =
    Some (concat (map2 (\<lambda>(l, d) rva. writeDataEntry rva (length d)) lt
             (offsets (offset s) (map (\<lambda>(l, d). alignData (length d)) lt))),
          s\<lparr>offset := offset s + sum_list (map (\<lambda>(l, d). alignData (length d)) lt)\<rparr>)"
  using assms
proof (induction lt arbitrary: s)
  case Nil
  then show ?case by simp
next
  case (Cons p lt)
  obtain l d where p: "p = (l, d)" by (cases p)
  from Cons.prems obtain de where de: "map_of (re_Data re) l = Some de" "de_Data de = d"
    and rest: "\<forall>(l, d) \<in> set lt. \<exists>de. map_of (re_Data re) l = Some de \<and> de_Data de = d"
    by (auto simp: p)
  show ?case
    by (simp add: p de Cons.IH[OF rest] DataEntry_write_def paddedDataSize_def add.assoc)
qed

lemma writeDataIndex_type_tree:
  assumes "\<forall>(r, lt) \<in> set rt. \<exists>re. map_of (Resources te) r = Some re \<and> re_rel re lt"
  shows "writeDataIndex_type te (map fst rt) s =
    Some (concat (map2 (\<lambda>(l, d) rva. writeDataEntry rva (length d)) (concat (map snd rt))
             (offsets (offset s) (map (\<lambda>(l, d). alignData (length d)) (concat (map snd rt))))),
          s\<lparr>offset := offset s
              + sum_list (map (\<lambda>(l, d). alignData (length d)) (concat (map snd rt)))\<rparr>)"
  using assms
proof (induction rt arbitrary: s)
  case Nil
  then show ?case by simp
next
  case (Cons p rt)
  obtain r0 lt0 where p: "p = (r0, lt0)" by (cases p)
  from Cons.prems obtain re where re: "map_of (Resources te) r0 = Some re" "re_rel re lt0"
    and rest: "\<forall>(r, lt) \<in> set rt. \<exists>re. map_of (Resources te) r = Some re \<and> re_rel re lt"
    unfolding p by (rule te_rel_Cons)
  have k: "keys_of (re_OrderedKeys re) = map fst lt0" using re(2) by (simp add: re_rel_def keys_of_def)
  have d: "\<forall>(l, d) \<in> set lt0. \<exists>de. map_of (re_Data re) l = Some de \<and> de_Data de = d"
    using re(2) by (simp add: re_rel_def)
  show ?case
    by (simp add: p re(1) k writeDataIndex_res_tree[OF d] Cons.IH[OF rest] offsets_append add.assoc)
qed

lemma writeDataIndex_tree:
  assumes "tree_of rs T"
  shows "ResourceSet_writeDataIndex rs (map fst T) s =
    Some (concat (map2 (\<lambda>(l, d) rva. writeDataEntry rva (length d)) (all_data T)
             (offsets (offset s) (map (\<lambda>(l, d). alignData (length d)) (all_data T)))),
          s\<lparr>offset := offset s + sum_list (map (\<lambda>(l, d). alignData (length d)) (all_data T))\<rparr>)"
  using assms
proof (induction T arbitrary: s)
  case Nil
  then show ?case by simp
next
  case (Cons p T)
  obtain t rt where p: "p = (t, rt)" by (cases p)
  from Cons.prems obtain te where te: "map_of (Types rs) t = Some te" "te_rel te rt"
    and T: "tree_of rs T"
    by (auto simp: p tree_of_Cons)
  have k: "keys_of (te_OrderedKeys te) = map fst rt" using te(2) by (simp add: te_rel_def keys_of_def)
  have r: "\<forall>(r, lt) \<in> set rt. \<exists>re. map_of (Resources te) r = Some re \<and> re_rel re lt"
    using te(2) by (simp add: te_rel_def)
  show ?case
    by (simp add: p te(1) k writeDataIndex_type_tree[OF r] Cons.IH[OF T] all_data_Cons
        offsets_append add.assoc)
qed

lemma writeData_res_tree:
  assumes "\<forall>(l, d) \<in> set lt. \<exists>de. map_of (re_Data re) l = Some de \<and> de_Data de = d"
  shows "writeData_res re (map fst lt) =
    Some (concat (map (\<lambda>(l, d). d @ replicate (alignData (length d) - length d) 0) lt))"
  using assms
proof (induction lt)
  case Nil
  then show ?case by simp
next
  case (Cons p lt)
  obtain l d where p: "p = (l, d)" by (cases p)
  from Cons.prems obtain de where de: "map_of (re_Data re) l = Some de" "de_Data de = d"
    and rest: "\<forall>(l, d) \<in> set lt. \<exists>de. map_of (re_Data re) l = Some de \<and> de_Data de = d"
    by (auto simp: p)
  show ?case
    by (simp add: p de Cons.IH[OF rest] DataEntry_writeData_eq)
qed

lemma writeData_type_tree:
  assumes "\<forall>(r, lt) \<in> set rt. \<exists>re. map_of (Resources te) r = Some re \<and> re_rel re lt"
  shows "writeData_type te (map fst rt) =
    Some (concat (map (\<lambda>(l, d). d @ replicate (alignData (length d) - length d) 0)
            (concat (map snd rt))))"
  using assms
proof (induction rt)
  case Nil
  then show ?case by simp
next
  case (Cons p rt)
  obtain r0 lt0 where p: "p = (r0, lt0)" by (cases p)
  from Cons.prems obtain re where re: "map_of (Resources te) r0 = Some re" "re_rel re lt0"
    and rest: "\<forall>(r, lt) \<in> set rt. \<exists>re. map_of (Resources te) r = Some re \<and> re_rel re lt"
    unfolding p by (rule te_rel_Cons)
  have k: "keys_of (re_OrderedKeys re) = map fst lt0" using re(2) by (simp add: re_rel_def keys_of_def)
  have d: "\<forall>(l, d) \<in> set lt0. \<exists>de. map_of (re_Data re) l = Some de \<and> de_Data de = d"
    using re(2) by (simp add: re_rel_def)
  show ?case
    by (simp add: p re(1) k writeData_res_tree[OF d] Cons.IH[OF rest])
qed

lemma writeData_tree:
  assumes "tree_of rs T"
  shows "ResourceSet_writeData rs (map fst T) = Some (layer6 T)"
  using assms
proof (induction T)
  case Nil
  then show ?case by (simp add: layer6_def)
next
  case (Cons p T)
  obtain t rt where p: "p = (t, rt)" by (cases p)
  from Cons.prems obtain te where te: "map_of (Types rs) t = Some te" "te_rel te rt"
    and T: "tree_of rs T"
    by (auto simp: p tree_of_Cons)
  have k: "keys_of (te_OrderedKeys te) = map fst rt" using te(2) by (simp add: te_rel_def keys_of_def)
  have r: "\<forall>(r, lt) \<in> set rt. \<exists>re. map_of (Resources te) r = Some re \<and> re_rel re lt"
    using te(2) by (simp add: te_rel_def)
  show ?case
    using Cons.IH[OF T]
    by (simp add: p te(1) k writeData_type_tree[OF r] all_data_Cons layer6_def)
qed

section \<open>Ordering a set\<close>

lemma map_of_map_snd:
  "map_of (map (\<lambda>(k, v). (k, f v)) al) k = map_option f (map_of al k)"
  by (induction al) auto

lemma sorted_distinct_eq_sort:
  assumes "sorted ks" "distinct ks" "set ks = set xs" "distinct xs"
  shows "ks = sort xs"
  by (rule sorted_distinct_set_unique) (use assms in simp_all)

lemma canon_re_order [simp]: "canon_re (ResourceEntry_order re) = canon_re re"
  by (simp add: canon_re_def ResourceEntry_order_def split: option.splits)

lemma re_Data_order [simp]: "re_Data (ResourceEntry_order re) = re_Data re"
  by (simp add: ResourceEntry_order_def split: option.splits)

lemma canon_te_Order [simp]: "canon_te (TypeEntry_Order te) = canon_te te"
proof (cases "te_OrderedKeys te")
  case None
  have "(case map_option ResourceEntry_order (map_of (Resources te) r) of
          None \<Rightarrow> [] | Some re \<Rightarrow> canon_re re)
      = (case map_of (Resources te) r of None \<Rightarrow> [] | Some re \<Rightarrow> canon_re re)" for r
    by (cases "map_of (Resources te) r") simp_all
  then show ?thesis using None
    by (simp add: canon_te_def TypeEntry_Order_def Let_def map_of_map_snd fst_comp_map_snd)
next
  case (Some a)
  then show ?thesis by (simp add: TypeEntry_Order_def)
qed

lemma canon_order [simp]: "canon (fst (ResourceSet_order rs s)) = canon rs"
proof -
  have "(case map_option TypeEntry_Order (map_of (Types rs) t) of
          None \<Rightarrow> [] | Some te \<Rightarrow> canon_te te)
      = (case map_of (Types rs) t of None \<Rightarrow> [] | Some te \<Rightarrow> canon_te te)" for t
    by (cases "map_of (Types rs) t") simp_all
  then show ?thesis
    by (simp add: canon_def Types_order map_of_map_snd fst_comp_map_snd)
qed

lemma re_ordered_order:
  assumes "wf_re re" "re_cache_ok re"
  shows "re_ordered (ResourceEntry_order re)"
proof (cases "re_OrderedKeys re")
  case None
  then show ?thesis by (simp add: re_ordered_def ResourceEntry_order_def sort_Slice_def)
next
  case (Some ks)
  then have "sorted ks" "distinct ks" "set ks = set (map fst (re_Data re))"
    using assms(2) by (simp_all add: re_cache_ok_def)
  then have "ks = sort (map fst (re_Data re))"
    using assms(1) by (intro sorted_distinct_eq_sort) (simp_all add: wf_re_def)
  then show ?thesis using Some by (simp add: re_ordered_def ResourceEntry_order_def)
qed

lemma re_ordered_cached:
  assumes "wf_re re" "re_cache_ok re" "re_OrderedKeys re \<noteq> None"
  shows "re_ordered re"
  using re_ordered_order[OF assms(1,2)] assms(3)
  by (auto simp: ResourceEntry_order_def split: option.splits)

lemma te_ordered_Order:
  assumes "wf_te te" "te_caches_ok te"
    "te_OrderedKeys te \<noteq> None \<longrightarrow> (\<forall>(r, re) \<in> set (Resources te). re_OrderedKeys re \<noteq> None)"
  shows "te_ordered (TypeEntry_Order te)"
proof (cases "te_OrderedKeys te")
  case None
  let ?keys = "sort (map fst (Resources te))"
  have r: "Resources (TypeEntry_Order te)
      = map (\<lambda>(ident, re). (ident, ResourceEntry_order re)) (Resources te)"
    using None by (simp add: TypeEntry_Order_def Let_def)
  have k: "map fst (Resources (TypeEntry_Order te)) = map fst (Resources te)"
    unfolding r by (rule map_fst_map_snd)
  have "\<forall>p \<in> set (Resources (TypeEntry_Order te)). re_ordered (snd p)"
  proof
    fix p assume "p \<in> set (Resources (TypeEntry_Order te))"
    then obtain v where v: "(fst p, v) \<in> set (Resources te)" "snd p = ResourceEntry_order v"
      unfolding r using in_set_map_sndD by fastforce
    then have "wf_re v" "re_cache_ok v" using assms by (auto simp: wf_te_def te_caches_ok_def)
    then show "re_ordered (snd p)" using v(2) by (simp add: re_ordered_order)
  qed
  moreover have "te_OrderedKeys (TypeEntry_Order te) = Some ?keys"
    using None by (simp add: TypeEntry_Order_def Let_def sort_Slice_def)
  moreover have "NamesCount (TypeEntry_Order te) = length (takeWhile is_Name ?keys)"
    using None namesCount_sorted[of ?keys]
    by (simp add: TypeEntry_Order_def Let_def sort_Slice_def)
  ultimately show ?thesis
    unfolding te_ordered_def k by (simp add: case_prod_unfold)
next
  case (Some ks)
  then have e: "TypeEntry_Order te = te" by (simp add: TypeEntry_Order_def)
  have c: "sorted ks" "distinct ks" "set ks = set (map fst (Resources te))"
    "NamesCount te = length (takeWhile is_Name ks)"
    using assms(2) Some by (simp_all add: te_caches_ok_def te_cache_ok_def)
  then have ks: "ks = sort (map fst (Resources te))"
    using assms(1) by (intro sorted_distinct_eq_sort) (simp_all add: wf_te_def)
  have "\<forall>p \<in> set (Resources te). re_ordered (snd p)"
  proof
    fix p assume p: "p \<in> set (Resources te)"
    then have "wf_re (snd p)" "re_cache_ok (snd p)" "re_OrderedKeys (snd p) \<noteq> None"
      using assms Some by (auto simp: wf_te_def te_caches_ok_def)
    then show "re_ordered (snd p)" by (rule re_ordered_cached)
  qed
  then show ?thesis
    unfolding e te_ordered_def using Some ks c(4) by (simp add: case_prod_unfold)
qed

lemma all_ordered_order:
  assumes "wf_ResourceSet rs" "caches_ok rs" "coherent rs"
  shows "all_ordered (fst (ResourceSet_order rs s))"
  unfolding all_ordered_def Types_order
proof
  fix p assume "p \<in> set (map (\<lambda>(ident, te). (ident, TypeEntry_Order te)) (Types rs))"
  then obtain v where v: "(fst p, v) \<in> set (Types rs)" "snd p = TypeEntry_Order v"
    using in_set_map_sndD by fastforce
  have "te_ordered (TypeEntry_Order v)"
  proof (rule te_ordered_Order)
    show "wf_te v" using assms(1) v(1) by (auto simp: wf_ResourceSet_alt)
    show "te_caches_ok v" using assms(2) v(1) by (auto simp: caches_ok_alt)
    show "te_OrderedKeys v \<noteq> None \<longrightarrow> (\<forall>(r, re)\<in>set (Resources v). re_OrderedKeys re \<noteq> None)"
      using assms(3) v(1) by (auto simp: coherent_def)
  qed
  then show "case p of (t, te) \<Rightarrow> te_ordered te" using v(2) by (simp add: case_prod_unfold)
qed

lemma keys_canon_re [simp]: "map fst (canon_re re) = sort (map fst (re_Data re))"
  by (simp add: canon_re_def comp_def)

lemma keys_canon_te [simp]: "map fst (canon_te te) = sort (map fst (Resources te))"
  by (simp add: canon_te_def comp_def)

lemma keys_canon [simp]: "map fst (canon rs) = sort (map fst (Types rs))"
  by (simp add: canon_def comp_def)

lemma in_keys_map_of: "k \<in> set (map fst al) \<Longrightarrow> \<exists>v. map_of al k = Some v"
  by (metis map_of_eq_None_iff not_None_eq set_map)

lemma re_rel_canon:
  assumes "re_ordered re"
  shows "re_rel re (canon_re re)"
proof -
  have "\<exists>de. map_of (re_Data re) l = Some de \<and> de_Data de = d" if "(l, d) \<in> set (canon_re re)" for l d
  proof -
    from that have l: "l \<in> set (map fst (re_Data re))"
      and d: "d = (case map_of (re_Data re) l of Some de \<Rightarrow> de_Data de | None \<Rightarrow> [])"
      by (auto simp: canon_re_def)
    from in_keys_map_of[OF l] obtain de where "map_of (re_Data re) l = Some de" by blast
    then show ?thesis using d by simp
  qed
  moreover have "length (re_Data re) = length (canon_re re)" by (simp add: canon_re_def)
  ultimately show ?thesis using assms by (auto simp: re_rel_def re_ordered_def)
qed

lemma te_rel_canon:
  assumes "te_ordered te"
  shows "te_rel te (canon_te te)"
proof -
  have "\<exists>re. map_of (Resources te) r = Some re \<and> re_rel re lt" if "(r, lt) \<in> set (canon_te te)" for r lt
  proof -
    from that have r: "r \<in> set (map fst (Resources te))"
      and lt: "lt = (case map_of (Resources te) r of Some re \<Rightarrow> canon_re re | None \<Rightarrow> [])"
      by (auto simp: canon_te_def)
    from in_keys_map_of[OF r] obtain re where re: "map_of (Resources te) r = Some re" by blast
    then have "(r, re) \<in> set (Resources te)" by (rule map_of_SomeD)
    then have "re_ordered re" using assms by (auto simp: te_ordered_def)
    then have "re_rel re (canon_re re)" by (rule re_rel_canon)
    then show ?thesis using re lt by simp
  qed
  moreover have "length (Resources te) = length (canon_te te)" by (simp add: canon_te_def)
  ultimately show ?thesis using assms by (auto simp: te_rel_def te_ordered_def)
qed

lemma tree_of_canon:
  assumes "all_ordered rs"
  shows "tree_of rs (canon rs)"
proof -
  have "\<exists>te. map_of (Types rs) t = Some te \<and> te_rel te rt" if "(t, rt) \<in> set (canon rs)" for t rt
  proof -
    from that have t: "t \<in> set (map fst (Types rs))"
      and rt: "rt = (case map_of (Types rs) t of Some te \<Rightarrow> canon_te te | None \<Rightarrow> [])"
      by (auto simp: canon_def)
    from in_keys_map_of[OF t] obtain te where te: "map_of (Types rs) t = Some te" by blast
    then have "(t, te) \<in> set (Types rs)" by (rule map_of_SomeD)
    then have "te_ordered te" using assms by (auto simp: all_ordered_def)
    then have "te_rel te (canon_te te)" by (rule te_rel_canon)
    then show ?thesis using te rt by simp
  qed
  then show ?thesis by (auto simp: tree_of_def)
qed

lemma tree_of_lookup:
  assumes "tree_of rs T" "k \<in> set (map fst T)"
  shows "map_of (Types rs) k \<noteq> None"
  using assms by (fastforce simp: tree_of_def)

lemma tree_of_te_sizes:
  assumes "tree_of rs T"
  shows "map (\<lambda>k. TypeEntry_size (the (map_of (Types rs) k))) (map fst T) = te_sizes T"
proof -
  have "TypeEntry_size (the (map_of (Types rs) (fst p))) = (case p of (t, rs) \<Rightarrow> 16 + 8 * length rs)"
    if "p \<in> set T" for p
  proof -
    obtain t rt where p: "p = (t, rt)" by (cases p)
    with that assms obtain te where "map_of (Types rs) t = Some te" "te_rel te rt"
      by (auto simp: tree_of_def)
    then show ?thesis
      by (simp add: p TypeEntry_size_def te_rel_def sizeOfDirTable_def sizeOfDirEntry_def)
  qed
  then show ?thesis by (simp add: te_sizes_def)
qed

lemma sum_re_sizes_all_res:
  "sum_list (map (\<lambda>(t, rt). sum_list (re_sizes rt)) T) = sum_list (re_sizes (all_res T))"
  by (induction T) (auto simp: re_sizes_def)

lemma writeTypeDir_tree:
  assumes "tree_of rs T" "sorted (map fst T)" "orderedKeys s = map fst T"
    "namesCount s = length (takeWhile is_Name (map fst T))" "offset s = 0"
  shows "ResourceSet_writeTypeDir rs s =
    Some (enc_dir (nameOffset s) True (map fst T) (offsets (off2 T) (te_sizes T)),
          s\<lparr>offset := off3 T\<rparr>)"
proof -
  have "ResourceSet_writeTypeDir rs s =
    Some (enc_dir (nameOffset s) True (orderedKeys s)
            (offsets (offset s + (16 + 8 * length (orderedKeys s)))
               (map (\<lambda>k. TypeEntry_size (the (map_of (Types rs) k))) (orderedKeys s))),
          s\<lparr>offset := offset s + (16 + 8 * length (orderedKeys s))
              + sum_list (map (\<lambda>k. TypeEntry_size (the (map_of (Types rs) k))) (orderedKeys s))\<rparr>)"
  proof (rule writeTypeDir_closed)
    show "sorted (orderedKeys s)" using assms by simp
    show "namesCount s = length (takeWhile is_Name (orderedKeys s))" using assms by simp
    show "\<forall>k\<in>set (orderedKeys s). map_of (Types rs) k \<noteq> None"
      using tree_of_lookup[OF assms(1)] assms(3) by simp
  qed
  then show ?thesis
    unfolding assms(3) tree_of_te_sizes[OF assms(1)] assms(5)
    by (simp add: off2_def off3_def)
qed

section \<open>The size of the directory\<close>

lemma foldl_add_sum: "foldl (\<lambda>sz p. sz + g p) a xs = a + sum_list (map g xs)"
  by (induction xs arbitrary: a) (auto simp: add.assoc)

lemma dirSize_sum:
  "dirSize rs = 16 + 8 * length (Types rs)
     + sum_list (map (\<lambda>(t, te). 16 + 8 * length (Resources te)
         + sum_list (map (\<lambda>(r, re). 16 + 8 * length (re_Data re) + 16 * length (re_Data re))
             (Resources te))) (Types rs))"
proof -
  have inner: "foldl (\<lambda>sz (ident, re). sz + (ResourceEntry_size re + length (re_Data re) * sizeOfDataEntry))
          a xs
      = a + sum_list (map (\<lambda>(r, re). 16 + 8 * length (re_Data re) + 16 * length (re_Data re)) xs)"
    for a xs
    using foldl_add_sum[of "\<lambda>p. ResourceEntry_size (snd p) + length (re_Data (snd p)) * sizeOfDataEntry" a xs]
    by (simp add: case_prod_unfold ResourceEntry_size_def sizeOfDirTable_def sizeOfDirEntry_def
        sizeOfDataEntry_def mult.commute)
  have "dirSize rs = foldl (\<lambda>sz p. sz + (16 + 8 * length (Resources (snd p))
         + sum_list (map (\<lambda>(r, re). 16 + 8 * length (re_Data re) + 16 * length (re_Data re))
             (Resources (snd p)))))
       (16 + 8 * length (Types rs)) (Types rs)"
    unfolding dirSize_def inner
    by (simp add: case_prod_unfold TypeEntry_size_def sizeOfDirTable_def sizeOfDirEntry_def
        mult.commute add.assoc)
  then show ?thesis
    unfolding foldl_add_sum by (simp add: case_prod_unfold)
qed

lemma off5_inner:
  "sum_list (re_sizes rt) + 16 * length (concat (map snd rt))
     = sum_list (map (\<lambda>(r, lt). 16 + 8 * length lt + 16 * length lt) rt)"
  by (induction rt) (auto simp: re_sizes_def)

lemma off5_sum:
  "off5 T = 16 + 8 * length T
     + sum_list (map (\<lambda>(t, rt). 16 + 8 * length rt
         + sum_list (map (\<lambda>(r, lt). 16 + 8 * length lt + 16 * length lt) rt)) T)"
proof -
  have "sum_list (te_sizes T) + sum_list (re_sizes (all_res T)) + 16 * length (all_data T)
      = sum_list (map (\<lambda>(t, rt). 16 + 8 * length rt
         + sum_list (map (\<lambda>(r, lt). 16 + 8 * length lt + 16 * length lt) rt)) T)"
  proof (induction T)
    case Nil
    then show ?case by (simp add: te_sizes_def re_sizes_def)
  next
    case (Cons p T)
    obtain t rt where p: "p = (t, rt)" by (cases p)
    have "sum_list (te_sizes ((t, rt) # T)) + sum_list (re_sizes (all_res ((t, rt) # T)))
          + 16 * length (all_data ((t, rt) # T))
        = (16 + 8 * length rt + (sum_list (re_sizes rt) + 16 * length (concat (map snd rt))))
          + (sum_list (te_sizes T) + sum_list (re_sizes (all_res T)) + 16 * length (all_data T))"
      by (simp add: te_sizes_def re_sizes_def all_data_Cons)
    then show ?case unfolding p off5_inner Cons.IH by simp
  qed
  then show ?thesis by (simp add: off5_def off4_def off3_def off2_def)
qed

lemma sum_sorted_keys:
  assumes "distinct (map fst al)"
  shows "sum_list (map (\<lambda>k. g (the (map_of al k))) (sort (map fst al)))
       = (sum_list (map (\<lambda>(k, v). g v) al) :: nat)"
proof -
  have "sum_list (map (\<lambda>k. g (the (map_of al k))) (sort (map fst al)))
      = sum (\<lambda>k. g (the (map_of al k))) (set (sort (map fst al)))"
    by (rule sum_list_distinct_conv_sum_set) (simp add: assms)
  also have "\<dots> = sum (\<lambda>k. g (the (map_of al k))) (set (map fst al))" by simp
  also have "\<dots> = sum_list (map (\<lambda>k. g (the (map_of al k))) (map fst al))"
    by (rule sum_list_distinct_conv_sum_set[symmetric]) (rule assms)
  also have "\<dots> = sum_list (map (\<lambda>(k, v). g v) al)"
  proof -
    have "g (the (map_of al (fst p))) = (case p of (k, v) \<Rightarrow> g v)" if "p \<in> set al" for p
    proof -
      obtain k v where p: "p = (k, v)" by (cases p)
      then have "map_of al k = Some v" using that assms by simp
      then show ?thesis by (simp add: p)
    qed
    then have "map (\<lambda>p. g (the (map_of al (fst p)))) al = map (\<lambda>(k, v). g v) al"
      by (intro map_cong) auto
    moreover have "map (\<lambda>k. g (the (map_of al k))) (map fst al)
        = map (\<lambda>p. g (the (map_of al (fst p)))) al"
      by (simp add: comp_def)
    ultimately show ?thesis by (simp only:)
  qed
  finally show ?thesis .
qed

lemma sum_canon_te:
  assumes "wf_te te"
  shows "sum_list (map (\<lambda>(r, lt). 16 + 8 * length lt + 16 * length lt) (canon_te te))
       = sum_list (map (\<lambda>(r, re). 16 + 8 * length (re_Data re) + 16 * length (re_Data re))
           (Resources te))"
proof -
  have d: "distinct (map fst (Resources te))" using assms by (simp add: wf_te_def)
  have "(case map_of (Resources te) r of None \<Rightarrow> [] | Some re \<Rightarrow> canon_re re)
      = canon_re (the (map_of (Resources te) r))" if "r \<in> set (map fst (Resources te))" for r
    using in_keys_map_of[OF that] by auto
  then have "map (\<lambda>(r, lt). 16 + 8 * length lt + 16 * length lt) (canon_te te)
      = map (\<lambda>k. 16 + 8 * length (re_Data (the (map_of (Resources te) k)))
           + 16 * length (re_Data (the (map_of (Resources te) k))))
          (sort (map fst (Resources te)))"
    by (auto simp: canon_te_def canon_re_def)
  then show ?thesis
    using sum_sorted_keys[OF d, of "\<lambda>re. 16 + 8 * length (re_Data re) + 16 * length (re_Data re)"]
    by simp
qed

lemma length_canon_te [simp]: "length (canon_te te) = length (Resources te)"
  by (simp add: canon_te_def)

lemma length_canon_re [simp]: "length (canon_re re) = length (re_Data re)"
  by (simp add: canon_re_def)

lemma length_canon [simp]: "length (canon rs) = length (Types rs)"
  by (simp add: canon_def)

lemma off5_canon:
  assumes "wf_ResourceSet rs"
  shows "off5 (canon rs) = dirSize rs"
proof -
  let ?h = "\<lambda>te. 16 + 8 * length (Resources te)
         + sum_list (map (\<lambda>(r, re). 16 + 8 * length (re_Data re) + 16 * length (re_Data re))
             (Resources te))"
  have d: "distinct (map fst (Types rs))" using assms by (simp add: wf_ResourceSet_alt)
  have "(16 + 8 * length (case map_of (Types rs) t of None \<Rightarrow> [] | Some te \<Rightarrow> canon_te te)
         + sum_list (map (\<lambda>(r, lt). 16 + 8 * length lt + 16 * length lt)
             (case map_of (Types rs) t of None \<Rightarrow> [] | Some te \<Rightarrow> canon_te te)))
      = ?h (the (map_of (Types rs) t))" if "t \<in> set (map fst (Types rs))" for t
  proof -
    from in_keys_map_of[OF that] obtain te where te: "map_of (Types rs) t = Some te" by blast
    then have "wf_te te" using assms by (rule lookup_wf_te[rotated])
    then show ?thesis using te sum_canon_te[of te] by simp
  qed
  note pt = this
  have m: "map (\<lambda>(t, rt). 16 + 8 * length rt
         + sum_list (map (\<lambda>(r, lt). 16 + 8 * length lt + 16 * length lt) rt)) (canon rs)
      = map (\<lambda>k. ?h (the (map_of (Types rs) k))) (sort (map fst (Types rs)))"
    unfolding canon_def map_map comp_def
    by (rule map_cong) (use pt in simp_all)
  have "sum_list (map (\<lambda>(t, rt). 16 + 8 * length rt
         + sum_list (map (\<lambda>(r, lt). 16 + 8 * length lt + 16 * length lt) rt)) (canon rs))
      = sum_list (map (\<lambda>(t, te). ?h te) (Types rs))"
    unfolding m by (rule sum_sorted_keys[OF d])
  then show ?thesis
    unfolding off5_sum dirSize_sum by simp
qed

section \<open>The name table\<close>

lemma those_map_Some:
  assumes "\<forall>x \<in> set xs. f x = Some (g x)"
  shows "those (map f xs) = Some (map g xs)"
  using assms by (induction xs) auto

lemma those_the_Name:
  assumes "\<forall>x \<in> set xs. is_Name x"
  shows "those (map the_Name xs) = Some (concat (map ident_names xs))"
  using assms
proof (induction xs)
  case Nil
  then show ?case by simp
next
  case (Cons x xs)
  then obtain n where "x = Name n" by (cases x) auto
  then show ?case using Cons by simp
qed

lemma ident_names_ID: "is_ID x \<Longrightarrow> ident_names x = []"
  by (cases x) auto

lemma names_takeWhile_sorted:
  assumes "sorted (ks :: Identifier list)"
  shows "concat (map ident_names (takeWhile is_Name ks)) = concat (map ident_names ks)"
proof -
  have "concat (map ident_names ks)
      = concat (map ident_names (takeWhile is_Name ks @ dropWhile is_Name ks))"
    by simp
  also have "\<dots> = concat (map ident_names (takeWhile is_Name ks))
      @ concat (map ident_names (dropWhile is_Name ks))"
    by (simp del: takeWhile_dropWhile_id)
  also have "concat (map ident_names (dropWhile is_Name ks)) = []"
    using sorted_takeWhile_Name(2)[OF assms] by (auto simp: ident_names_ID)
  finally show ?thesis by simp
qed

lemma entry_names_ordered:
  assumes "te_ordered te"
  shows "entry_names (t, te)
    = Some (ident_names t @ concat (map ident_names (sort (map fst (Resources te)))))"
proof -
  let ?ks = "sort (map fst (Resources te))"
  have k: "keys_of (te_OrderedKeys te) = ?ks" "NamesCount te = length (takeWhile is_Name ?ks)"
    using assms by (simp_all add: te_ordered_def keys_of_def)
  have s: "slice_to ?ks (length (takeWhile is_Name ?ks)) = Some (takeWhile is_Name ?ks)"
    using length_takeWhile_le[of is_Name ?ks]
    by (simp add: slice_to_def takeWhile_eq_take[symmetric])
  have n: "those (map the_Name (takeWhile is_Name ?ks))
      = Some (concat (map ident_names (takeWhile is_Name ?ks)))"
    by (rule those_the_Name) (auto dest: set_takeWhileD)
  have i: "(case t of Name n \<Rightarrow> [n] | ID _ \<Rightarrow> []) = ident_names t" by (cases t) auto
  show ?thesis
    unfolding entry_names_def
    by (simp add: k s n i names_takeWhile_sorted)
qed

lemma those_entry_names:
  assumes "all_ordered rs"
  shows "those (map entry_names (Types rs))
    = Some (map (\<lambda>(t, te). ident_names t @ concat (map ident_names (sort (map fst (Resources te)))))
        (Types rs))"
proof (rule those_map_Some)
  show "\<forall>x\<in>set (Types rs). entry_names x
      = Some (case x of (t, te) \<Rightarrow>
          ident_names t @ concat (map ident_names (sort (map fst (Resources te)))))"
  proof
    fix x assume x: "x \<in> set (Types rs)"
    obtain t te where p: "x = (t, te)" by (cases x)
    then have "te_ordered te" using assms x by (auto simp: all_ordered_def)
    then show "entry_names x = Some (case x of (t, te) \<Rightarrow>
          ident_names t @ concat (map ident_names (sort (map fst (Resources te)))))"
      unfolding p by (simp add: entry_names_ordered)
  qed
qed

lemma set_canon:
  assumes "distinct (map fst (Types rs))"
  shows "set (canon rs) = (\<lambda>(t, te). (t, canon_te te)) ` set (Types rs)"
proof
  show "set (canon rs) \<subseteq> (\<lambda>(t, te). (t, canon_te te)) ` set (Types rs)"
  proof
    fix p assume "p \<in> set (canon rs)"
    then obtain t where t: "t \<in> set (map fst (Types rs))"
      and p: "p = (t, case map_of (Types rs) t of Some te \<Rightarrow> canon_te te | None \<Rightarrow> [])"
      by (auto simp: canon_def)
    from in_keys_map_of[OF t] obtain te where te: "map_of (Types rs) t = Some te" by blast
    then have "(t, te) \<in> set (Types rs)" by (rule map_of_SomeD)
    then show "p \<in> (\<lambda>(t, te). (t, canon_te te)) ` set (Types rs)"
      using p te by force
  qed
  show "(\<lambda>(t, te). (t, canon_te te)) ` set (Types rs) \<subseteq> set (canon rs)"
  proof
    fix p assume "p \<in> (\<lambda>(t, te). (t, canon_te te)) ` set (Types rs)"
    then obtain t te where m: "(t, te) \<in> set (Types rs)" and p: "p = (t, canon_te te)" by auto
    then have "map_of (Types rs) t = Some te" using assms by simp
    moreover have "t \<in> set (map fst (Types rs))" using m by force
    ultimately show "p \<in> set (canon rs)" unfolding p canon_def by force
  qed
qed

lemma fst_set_canon_te: "fst ` set (canon_te te) = fst ` set (Resources te)"
  by (metis keys_canon_te set_map set_sort)

lemma sort_remdups_cong: "set xs = set ys \<Longrightarrow> sort (remdups xs) = sort (remdups ys)"
  by (metis sorted_list_of_set_sort_remdups)

lemma names_canon:
  assumes "distinct (map fst (Types rs))"
  shows "sort (remdups (concat (map (\<lambda>(t, te).
            ident_names t @ concat (map ident_names (sort (map fst (Resources te))))) (Types rs))))
       = tree_names (canon rs)"
  unfolding tree_names_def
proof (rule sort_remdups_cong)
  have "set (concat (map (\<lambda>(t, rs). ident_names t @ concat (map (ident_names \<circ> fst) rs)) (canon rs)))
      = (\<Union>p \<in> set (canon rs). set (ident_names (fst p))
           \<union> (\<Union>k \<in> fst ` set (snd p). set (ident_names k)))"
    by (auto simp: case_prod_unfold)
  also have "\<dots> = (\<Union>q \<in> set (Types rs). set (ident_names (fst q))
           \<union> (\<Union>k \<in> fst ` set (canon_te (snd q)). set (ident_names k)))"
    unfolding set_canon[OF assms] by (simp add: case_prod_unfold)
  also have "\<dots> = (\<Union>q \<in> set (Types rs). set (ident_names (fst q))
           \<union> (\<Union>k \<in> fst ` set (Resources (snd q)). set (ident_names k)))"
    unfolding fst_set_canon_te ..
  also have "\<dots> = set (concat (map (\<lambda>(t, te).
            ident_names t @ concat (map ident_names (sort (map fst (Resources te))))) (Types rs)))"
    by (auto simp: case_prod_unfold)
  finally show "set (concat (map (\<lambda>(t, te).
            ident_names t @ concat (map ident_names (sort (map fst (Resources te))))) (Types rs)))
      = set (concat (map (\<lambda>(t, rs). ident_names t @ concat (map (ident_names \<circ> fst) rs)) (canon rs)))"
    by simp
qed

lemma names_loop_fields:
  "names_loop ns off (s\<lparr>orderedKeys := ks, namesCount := nc\<rparr>)
     = (names_loop ns off s)\<lparr>orderedKeys := ks, namesCount := nc\<rparr>"
proof (induction ns arbitrary: off s)
  case Nil
  then show ?case by simp
next
  case (Cons a ns)
  let ?u = "utf16_Encode a"
  have e: "s\<lparr>orderedKeys := ks, namesCount := nc\<rparr>
        \<lparr>nameOffset := AList.update a off (nameOffset (s\<lparr>orderedKeys := ks, namesCount := nc\<rparr>)),
         namesData := namesData (s\<lparr>orderedKeys := ks, namesCount := nc\<rparr>)
            @ [word_of_nat (length ?u)] @ ?u\<rparr>
      = s\<lparr>nameOffset := AList.update a off (nameOffset s),
          namesData := namesData s @ [word_of_nat (length ?u)] @ ?u\<rparr>
        \<lparr>orderedKeys := ks, namesCount := nc\<rparr>"
    by (rule state.equality) simp_all
  show ?case
    unfolding names_loop.simps Let_def e by (rule Cons.IH)
qed

lemma names_loop_keeps:
  "offset (names_loop ns off s) = offset s" "relocAddr (names_loop ns off s) = relocAddr s"
  "orderedKeys (names_loop ns off s) = orderedKeys s" "namesCount (names_loop ns off s) = namesCount s"
  by (induction ns arbitrary: off s) (auto simp: Let_def)

section \<open>The encoder computes the closed form\<close>

lemma order_state:
  "snd (ResourceSet_order rs s)
     = s\<lparr>orderedKeys := map fst (canon rs),
         namesCount := length (takeWhile is_Name (map fst (canon rs)))\<rparr>"
  using namesCount_sorted[of "sort (map fst (Types rs))"]
  by (simp add: ResourceSet_order_def Let_def sort_Slice_def)

lemma prepare_tree:
  assumes "wf_ResourceSet rs" "caches_ok rs" "coherent rs"
  shows "ResourceSet_prepare rs =
    Some (fst (ResourceSet_order rs empty_state),
          (tree_state (canon rs))\<lparr>orderedKeys := map fst (canon rs),
             namesCount := length (takeWhile is_Name (map fst (canon rs)))\<rparr>)"
proof -
  let ?T = "canon rs"
  let ?ks = "map fst ?T"
  let ?nc = "length (takeWhile is_Name ?ks)"
  obtain rs1 s0 where o: "ResourceSet_order rs empty_state = (rs1, s0)"
    by (cases "ResourceSet_order rs empty_state")
  have r1: "rs1 = fst (ResourceSet_order rs empty_state)" using o by simp
  have s0: "s0 = empty_state\<lparr>orderedKeys := ?ks, namesCount := ?nc\<rparr>"
    using o order_state[of rs empty_state] by simp
  have wf1: "wf_ResourceSet rs1" unfolding r1 using assms(1) by (rule wf_order)
  have ord: "all_ordered rs1" unfolding r1 using assms by (rule all_ordered_order)
  have c1: "canon rs1 = ?T" unfolding r1 by simp
  have d1: "distinct (map fst (Types rs1))" using wf1 by (simp add: wf_ResourceSet_alt)
  have th: "those (map entry_names (Types rs1))
    = Some (map (\<lambda>(t, te). ident_names t @ concat (map ident_names (sort (map fst (Resources te)))))
        (Types rs1))"
    using ord by (rule those_entry_names)
  have nm: "sort (remdups (concat (map (\<lambda>(t, te).
            ident_names t @ concat (map ident_names (sort (map fst (Resources te))))) (Types rs1))))
       = tree_names ?T"
    using names_canon[OF d1] c1 by simp
  have ds: "dirSize rs1 = off5 ?T" using off5_canon[OF wf1] c1 by simp
  have e: "(names_loop (tree_names ?T) (off5 ?T) empty_state)
        \<lparr>orderedKeys := ?ks, namesCount := ?nc,
         namesData := namesData (names_loop (tree_names ?T) (off5 ?T) empty_state)
           @ replicate ((alignData (length (namesData (names_loop (tree_names ?T) (off5 ?T) empty_state)) * 2)
               - length (namesData (names_loop (tree_names ?T) (off5 ?T) empty_state)) * 2) div 2) 0\<rparr>
      = (tree_state ?T)\<lparr>orderedKeys := ?ks, namesCount := ?nc\<rparr>"
    by (rule state.equality) (simp_all add: tree_state_def Let_def)
  have "ResourceSet_prepare rs = Some (rs1, (tree_state ?T)\<lparr>orderedKeys := ?ks, namesCount := ?nc\<rparr>)"
    unfolding ResourceSet_prepare_def o
    using e by (simp add: th nm ds s0 names_loop_fields Let_def)
  then show ?thesis unfolding r1 .
qed

lemma tree_state_fields [simp]:
  "offset (tree_state T) = 0" "relocAddr (tree_state T) = []"
  by (simp_all add: tree_state_def Let_def names_loop_keeps empty_state_def)

lemma write_tree:
  assumes "wf_ResourceSet rs" "caches_ok rs" "coherent rs"
  shows "ResourceSet_write rs =
    Some (encode_tree (canon rs), reloc_tree (canon rs), fst (ResourceSet_order rs empty_state))"
proof -
  let ?rs1 = "fst (ResourceSet_order rs empty_state)"
  let ?T = "canon rs"
  let ?s = "(tree_state ?T)\<lparr>orderedKeys := map fst ?T,
             namesCount := length (takeWhile is_Name (map fst ?T))\<rparr>"
  have p: "ResourceSet_prepare rs = Some (?rs1, ?s)" using assms by (rule prepare_tree)
  have ord: "all_ordered ?rs1" using assms by (rule all_ordered_order)
  have t: "tree_of ?rs1 ?T" using tree_of_canon[OF ord] by simp
  have w1: "ResourceSet_writeTypeDir ?rs1 ?s = Some (layer1 ?T, ?s\<lparr>offset := off3 ?T\<rparr>)"
    using writeTypeDir_tree[OF t, of ?s] by (simp add: layer1_def)
  have w6: "ResourceSet_writeData ?rs1 (map fst ?T) = Some (layer6 ?T)"
    using t by (rule writeData_tree)
  show ?thesis
    unfolding ResourceSet_write_def
    by (simp add: p w1 writeResDirs_tree[OF t] writeLangDirs_tree[OF t] writeDataIndex_tree[OF t]
        w6 encode_tree_def layer2_def layer3_def layer4_def layer5_def reloc_tree_def
        off4_def off5_def off6_def sum_re_sizes_all_res del: keys_canon)
qed

section \<open>Little-endian fields read back\<close>

lemma length_le16 [simp]: "length (le16 w) = 2"
  by (simp add: le16_def)

lemma length_le32 [simp]: "length (le32 w) = 4"
  by (simp add: le32_def)

lemma split_sub: "(n::nat) < k \<or> k + (n - k) = n"
  by arith

lemma get_u16_le16 [simp]: "get_u16 (le16 w @ bs) = w"
proof -
  have "(ucast (ucast w :: byte) :: uint16) OR push_bit 8 (ucast (ucast (drop_bit 8 w) :: byte)) = w"
  proof (rule bit_word_eqI)
    fix n assume "n < LENGTH(16)"
    then show "bit ((ucast (ucast w :: byte) :: uint16)
          OR push_bit 8 (ucast (ucast (drop_bit 8 w) :: byte))) n = bit w n"
      using split_sub[of n 8] by (auto simp: bit_simps)
  qed
  then show ?thesis by (simp add: le16_def)
qed

lemma get_u32_le32 [simp]: "get_u32 (le32 w @ bs) = w"
proof -
  have "(ucast (ucast w :: byte) :: uint32) OR push_bit 8 (ucast (ucast (drop_bit 8 w) :: byte))
      OR push_bit 16 (ucast (ucast (drop_bit 16 w) :: byte))
      OR push_bit 24 (ucast (ucast (drop_bit 24 w) :: byte)) = w"
  proof (rule bit_word_eqI)
    fix n assume "n < LENGTH(32)"
    then show "bit ((ucast (ucast w :: byte) :: uint32)
          OR push_bit 8 (ucast (ucast (drop_bit 8 w) :: byte))
          OR push_bit 16 (ucast (ucast (drop_bit 16 w) :: byte))
          OR push_bit 24 (ucast (ucast (drop_bit 24 w) :: byte))) n = bit w n"
      using split_sub[of n 8] split_sub[of n 16] split_sub[of n 24]
      by (auto simp: bit_simps)
  qed
  then show ?thesis by (simp add: le32_def)
qed

lemma get_u16s_le16s [simp]: "get_u16s (concat (map le16 ws)) = ws"
proof (induction ws)
  case Nil
  then show ?case by simp
next
  case (Cons w ws)
  have "get_u16s (le16 w @ concat (map le16 ws)) = get_u16 (le16 w) # get_u16s (concat (map le16 ws))"
    by (simp add: le16_def)
  then show ?case using Cons get_u16_le16[of w "[]"] by simp
qed


section \<open>The lengths of the layers\<close>

lemma length_writeDirectoryTable [simp]: "length (writeDirectoryTable a b) = 16"
  by (simp add: writeDirectoryTable_def)

lemma length_writeDirectoryEntry [simp]: "length (writeDirectoryEntry i off n s) = 8"
  by (simp add: writeDirectoryEntry_def Let_def)

lemma length_writeDataEntry [simp]: "length (writeDataEntry off n) = 16"
  by (simp add: writeDataEntry_def)

lemma length_enc_entry [simp]: "length (enc_entry noff sub k off) = 8"
  by (cases k) (simp_all add: enc_entry_def)

lemma length_concat_entries:
  "length offs = length ks \<Longrightarrow> length (concat (map2 (enc_entry noff sub) ks offs)) = 8 * length ks"
  by (induction ks offs rule: list_induct2') auto

lemma length_enc_dir:
  "length offs = length ks \<Longrightarrow> length (enc_dir noff sub ks offs) = 16 + 8 * length ks"
  by (simp add: enc_dir_def length_concat_entries)

lemma length_layer1: "length (layer1 T) = off2 T"
  by (simp add: layer1_def length_enc_dir te_sizes_def off2_def)

lemma length_layer2_gen:
  "length (concat (map2 (\<lambda>(t, rs) base.
         enc_dir noff True (map fst rs) (offsets base (re_sizes rs)))
       T (offsets off (map g T)))) = sum_list (te_sizes T)"
  by (induction T arbitrary: off) (auto simp: te_sizes_def length_enc_dir re_sizes_def)

lemma length_layer2: "length (layer2 T) = sum_list (te_sizes T)"
  unfolding layer2_def by (rule length_layer2_gen)

lemma length_layer3_gen:
  "length (concat (map2 (\<lambda>(r, ls) base.
         enc_dir noff False (map (ID \<circ> fst) ls) (offsets base (replicate (length ls) 16)))
       rt (offsets off (map g rt)))) = sum_list (re_sizes rt)"
  by (induction rt arbitrary: off) (auto simp: length_enc_dir re_sizes_def)

lemma length_layer3: "length (layer3 T) = sum_list (re_sizes (all_res T))"
  unfolding layer3_def by (rule length_layer3_gen)

lemma length_layer4_gen:
  "length (concat (map2 (\<lambda>(l, d) rva. writeDataEntry rva (length d)) lt (offsets off (map g lt))))
     = 16 * length lt"
  by (induction lt arbitrary: off) auto

lemma length_layer4: "length (layer4 T) = 16 * length (all_data T)"
  unfolding layer4_def by (rule length_layer4_gen)

lemma length_concat_le16: "length (concat (map le16 ws)) = 2 * length ws"
  by (induction ws) auto

lemma length_layer5: "length (layer5 T) = 2 * length (namesData (tree_state T))"
  by (simp add: layer5_def length_concat_le16)

lemma length_layers_1_3: "length (layer1 T @ layer2 T @ layer3 T) = off4 T"
  by (simp add: length_layer1 length_layer2 length_layer3 off4_def off3_def)

lemma length_layers_1_4: "length (layer1 T @ layer2 T @ layer3 T @ layer4 T) = off5 T"
  by (simp add: length_layer1 length_layer2 length_layer3 length_layer4 off5_def off4_def off3_def)

lemma length_layers_1_5:
  "length (layer1 T @ layer2 T @ layer3 T @ layer4 T @ layer5 T) = off6 T"
  by (simp add: length_layer1 length_layer2 length_layer3 length_layer4 length_layer5
      off6_def off5_def off4_def off3_def)

section \<open>The directory size\<close>

lemma numDataEntries_sum:
  "numDataEntries rs
     = sum_list (map (\<lambda>(t, te). sum_list (map (\<lambda>(r, re). length (re_Data re)) (Resources te)))
         (Types rs))"
proof -
  have inner: "foldl (\<lambda>n (ident, re). n + length (re_Data re)) a xs
      = a + sum_list (map (\<lambda>(r, re). length (re_Data re)) xs)" for a xs
    using foldl_add_sum[of "\<lambda>p. length (re_Data (snd p))" a xs] by (simp add: case_prod_unfold)
  show ?thesis
    unfolding numDataEntries_def inner
    using foldl_add_sum[of "\<lambda>p. sum_list (map (\<lambda>(r, re). length (re_Data re)) (Resources (snd p)))"
        0 "Types rs"]
    by (simp add: case_prod_unfold)
qed

lemma dirSize_closed_form: "dirSize rs = spec_dirSize rs + 16 * numDataEntries rs"
proof -
  have i: "sum_list (map (\<lambda>(r, re). 16 + 8 * length (re_Data re) + 16 * length (re_Data re)) xs)
      = sum_list (map (\<lambda>(r, re). 16 + 8 * length (re_Data re)) xs)
        + 16 * sum_list (map (\<lambda>(r, re). length (re_Data re)) xs)" for xs :: "(Identifier \<times> ResourceEntry) list"
    by (induction xs) auto
  have "sum_list (map (\<lambda>(t, te). 16 + 8 * length (Resources te)
         + sum_list (map (\<lambda>(r, re). 16 + 8 * length (re_Data re) + 16 * length (re_Data re))
             (Resources te))) ys)
      = sum_list (map (\<lambda>(t, te). 16 + 8 * length (Resources te)) ys)
        + sum_list (map (\<lambda>(t, te).
           sum_list (map (\<lambda>(r, re). 16 + 8 * length (re_Data re)) (Resources te))) ys)
        + 16 * sum_list (map (\<lambda>(t, te). sum_list (map (\<lambda>(r, re). length (re_Data re)) (Resources te)))
         ys)" for ys :: "(Identifier \<times> TypeEntry) list"
    using i by (induction ys) auto
  then show ?thesis
    unfolding dirSize_sum spec_dirSize_def numDataEntries_sum by simp
qed

lemma one_icon_sizes: "dirSize one_icon = 88" "spec_dirSize one_icon = 72" "numDataEntries one_icon = 1"
  by code_simp+

text \<open>
  Claim C8, as amended. The size of the directory region is the closed form of the
  specification plus 16 bytes for every data record of the data index, which the region
  includes; when the order caches of the set are coherent, the name string table of the
  serialised output begins at exactly that offset.
\<close>

theorem directory_size_closed_form:
  assumes "wf_ResourceSet rs" "caches_ok rs" "coherent rs"
  shows "dirSize rs = spec_dirSize rs + 16 * numDataEntries rs
    \<and> (\<exists>b r rs1 s. ResourceSet_write rs = Some (b, r, rs1)
          \<and> ResourceSet_prepare rs = Some (rs1, s)
          \<and> dirSize rs + 2 * length (namesData s) \<le> length b
          \<and> take (2 * length (namesData s)) (drop (dirSize rs) b)
              = concat (map le16 (namesData s)))"
proof
  show "dirSize rs = spec_dirSize rs + 16 * numDataEntries rs" by (rule dirSize_closed_form)
  let ?T = "canon rs"
  let ?s = "(tree_state ?T)\<lparr>orderedKeys := map fst ?T,
             namesCount := length (takeWhile is_Name (map fst ?T))\<rparr>"
  have w: "ResourceSet_write rs =
      Some (encode_tree ?T, reloc_tree ?T, fst (ResourceSet_order rs empty_state))"
    using assms by (rule write_tree)
  have p: "ResourceSet_prepare rs = Some (fst (ResourceSet_order rs empty_state), ?s)"
    using assms by (rule prepare_tree)
  have d: "dirSize rs = off5 ?T" using off5_canon[OF assms(1)] by simp
  have n: "namesData ?s = namesData (tree_state ?T)" by simp
  have e: "encode_tree ?T = (layer1 ?T @ layer2 ?T @ layer3 ?T @ layer4 ?T) @ layer5 ?T @ layer6 ?T"
    by (simp add: encode_tree_def)
  have l: "length (layer1 ?T @ layer2 ?T @ layer3 ?T @ layer4 ?T) = dirSize rs"
    unfolding d by (rule length_layers_1_4)
  have "drop (dirSize rs) (encode_tree ?T) = layer5 ?T @ layer6 ?T"
    unfolding e using l by (metis append_eq_conv_conj)
  then have t: "take (2 * length (namesData ?s)) (drop (dirSize rs) (encode_tree ?T))
      = concat (map le16 (namesData ?s))"
    unfolding n by (simp add: length_layer5[symmetric] layer5_def)
  have "length (encode_tree ?T) = dirSize rs + length (layer5 ?T) + length (layer6 ?T)"
    unfolding e using l by simp
  then have b: "dirSize rs + 2 * length (namesData ?s) \<le> length (encode_tree ?T)"
    unfolding n by (simp add: length_layer5)
  show "\<exists>b r rs1 s. ResourceSet_write rs = Some (b, r, rs1)
          \<and> ResourceSet_prepare rs = Some (rs1, s)
          \<and> dirSize rs + 2 * length (namesData s) \<le> length b
          \<and> take (2 * length (namesData s)) (drop (dirSize rs) b)
              = concat (map le16 (namesData s))"
    using w p b t by blast
qed

lemma example_operations_invariants:
  "wf_ResourceSet (run_operations example_operations)"
  "caches_ok (run_operations example_operations)"
  "coherent (run_operations example_operations)"
  by code_simp+

lemma example_operations_sizes:
  "dirSize (run_operations example_operations) = 136"
  "spec_dirSize (run_operations example_operations) = 104"
  "numDataEntries (run_operations example_operations) = 2"
  by code_simp+

theorem directory_size_closed_form_witness:
  "wf_ResourceSet (run_operations example_operations)
   \<and> caches_ok (run_operations example_operations)
   \<and> coherent (run_operations example_operations)
   \<and> dirSize (run_operations example_operations) = 136
   \<and> spec_dirSize (run_operations example_operations) + 16 * numDataEntries (run_operations example_operations) = 136
   \<and> (\<exists>b r rs1 s. ResourceSet_write (run_operations example_operations) = Some (b, r, rs1)
          \<and> ResourceSet_prepare (run_operations example_operations) = Some (rs1, s)
          \<and> dirSize (run_operations example_operations) + 2 * length (namesData s) \<le> length b
          \<and> take (2 * length (namesData s)) (drop (dirSize (run_operations example_operations)) b)
              = concat (map le16 (namesData s)))"
  using directory_size_closed_form [OF example_operations_invariants]
    example_operations_invariants example_operations_sizes
  by simp

text \<open>
  The closed form as the specification words it leaves out the data index: for a set of
  one triple the directory region is 88 bytes long, the specification's form gives 72.
\<close>

theorem directory_size_counterexample:
  "dirSize one_icon = 88 \<and> spec_dirSize one_icon = 72"
  by (simp add: one_icon_sizes)

lemma stale_example_eq:
  "stale_example =
    \<lparr>Types = [(ID 3, \<lparr>Resources = [(ID 1, \<lparr>re_Data = [(0, \<lparr>de_Data = [1, 2, 3]\<rparr>),
          (1033, \<lparr>de_Data = [4, 5]\<rparr>)], re_OrderedKeys = None\<rparr>)],
        te_OrderedKeys = Some [ID 1], NamesCount = 0\<rparr>)],
      lastIconID = 1, lastCursorID = 0\<rparr>"
  by code_simp

lemma fresh_example_eq:
  "fresh_example =
    \<lparr>Types = [(ID 3, \<lparr>Resources = [(ID 1, \<lparr>re_Data = [(0, \<lparr>de_Data = [1, 2, 3]\<rparr>),
          (1033, \<lparr>de_Data = [4, 5]\<rparr>)], re_OrderedKeys = None\<rparr>)],
        te_OrderedKeys = None, NamesCount = 0\<rparr>)],
      lastIconID = 1, lastCursorID = 0\<rparr>"
  by code_simp

lemma stale_fresh_write:
  "map_option (\<lambda>(b, r, rs). (length b, r)) (ResourceSet_write fresh_example) = Some (128, [80, 96])"
  "map_option (\<lambda>(b, r, rs). (length b, r)) (ResourceSet_write stale_example) = Some (64, [])"
  by code_simp+

text \<open>
  Claim C2, at the input where the code departs from it. The two sets hold the same
  triples with the same payloads; the set that was serialised before its resource got a
  second language is written as 64 bytes with no relocation address, the other as 128
  bytes with two.
\<close>

theorem stale_cache_serialization:
  "(\<forall>t r l. ResourceSet_Get stale_example t r l = ResourceSet_Get fresh_example t r l)
   \<and> map_option (\<lambda>(b, r, rs). (length b, r)) (ResourceSet_write fresh_example)
       = Some (128, [80, 96])
   \<and> map_option (\<lambda>(b, r, rs). (length b, r)) (ResourceSet_write stale_example) = Some (64, [])"
  by (simp add: stale_fresh_write) (simp add: stale_example_eq fresh_example_eq ResourceSet_Get_def)

section \<open>The ordering law\<close>

lemma sorted_distinct_nth_less:
  assumes "sorted ks" "distinct ks" "i < j" "j < length ks"
  shows "ks ! i < ks ! (j :: nat)"
proof -
  have "ks ! i \<le> ks ! j" using assms by (simp add: sorted_nth_mono)
  moreover have "ks ! i \<noteq> ks ! j" using assms by (simp add: nth_eq_iff_index_eq)
  ultimately show ?thesis by simp
qed

lemma level_ordered_sorted:
  assumes "sorted (ks :: Identifier list)" "distinct ks"
  shows "level_ordered ks"
proof -
  have nf: "names_first ks"
    unfolding names_first_def
  proof (intro allI impI)
    fix i j assume a: "i < length ks \<and> j < length ks \<and> is_Name (ks ! i) \<and> is_ID (ks ! j)"
    show "i < j"
    proof (rule ccontr)
      assume "\<not> i < j"
      then have "j \<le> i" by simp
      then have "ks ! j \<le> ks ! i" using a assms(1) by (simp add: sorted_nth_mono)
      then show False using a
        by (cases "ks ! i"; cases "ks ! j") (auto simp: less_eq_Identifier_def)
    qed
  qed
  have na: "names_ascending ks"
    unfolding names_ascending_def
  proof (intro allI impI)
    fix i j n m assume a: "i < j \<and> j < length ks \<and> ks ! i = Name n \<and> ks ! j = Name m"
    then have "ks ! i < ks ! j" using sorted_distinct_nth_less[OF assms] by blast
    then show "n < m" using a by (simp add: less_Identifier_def)
  qed
  have ia: "ids_ascending ks"
    unfolding ids_ascending_def
  proof (intro allI impI)
    fix i j a b assume a: "i < j \<and> j < length ks \<and> ks ! i = ID a \<and> ks ! j = ID b"
    then have "ks ! i < ks ! j" using sorted_distinct_nth_less[OF assms] by blast
    then show "a < b" using a by (simp add: less_Identifier_def)
  qed
  show ?thesis using nf na ia by (simp add: level_ordered_def)
qed

lemma level_ordered_langs:
  assumes "sorted (ls :: uint16 list)" "distinct ls"
  shows "level_ordered (map ID ls)"
proof -
  have "ids_ascending (map ID ls)"
    unfolding ids_ascending_def
  proof (intro allI impI)
    fix i j a b
    assume a: "i < j \<and> j < length (map ID ls) \<and> map ID ls ! i = ID a \<and> map ID ls ! j = ID b"
    then have "ls ! i = a" "ls ! j = b" by auto
    moreover have "ls ! i < ls ! j" using a sorted_distinct_nth_less[OF assms, of i j] by simp
    ultimately show "a < b" by simp
  qed
  then show ?thesis
    by (auto simp: level_ordered_def names_first_def names_ascending_def)
qed

lemma header_names_count:
  "get_u16 (drop 12 (enc_dir noff sub ks offs)) = word_of_nat (length (filter is_Name ks))"
  by (simp add: enc_dir_def writeDirectoryTable_def)


lemma set_canon_gen:
  assumes "distinct (map fst al)"
  shows "set (map (\<lambda>k. (k, case map_of al k of Some v \<Rightarrow> f v | None \<Rightarrow> d)) (sort (map fst al)))
       = (\<lambda>(k, v). (k, f v)) ` set al"
proof -
  have "(\<lambda>k. (k, case map_of al k of Some v \<Rightarrow> f v | None \<Rightarrow> d)) ` fst ` set al
      = (\<lambda>(k, v). (k, f v)) ` set al"
  proof (intro set_eqI iffI)
    fix p assume "p \<in> (\<lambda>k. (k, case map_of al k of Some v \<Rightarrow> f v | None \<Rightarrow> d)) ` fst ` set al"
    then obtain k v where kv: "(k, v) \<in> set al"
      and p: "p = (k, case map_of al k of Some v \<Rightarrow> f v | None \<Rightarrow> d)" by auto
    from kv assms have "map_of al k = Some v" by simp
    with p kv show "p \<in> (\<lambda>(k, v). (k, f v)) ` set al" by force
  next
    fix p assume "p \<in> (\<lambda>(k, v). (k, f v)) ` set al"
    then obtain k v where kv: "(k, v) \<in> set al" and p: "p = (k, f v)" by auto
    from kv assms have "map_of al k = Some v" by simp
    with p kv show "p \<in> (\<lambda>k. (k, case map_of al k of Some v \<Rightarrow> f v | None \<Rightarrow> d)) ` fst ` set al"
      by force
  qed
  then show ?thesis by simp
qed

lemma set_canon_te:
  "distinct (map fst (Resources te)) \<Longrightarrow>
   set (canon_te te) = (\<lambda>(r, re). (r, canon_re re)) ` set (Resources te)"
  unfolding canon_te_def by (rule set_canon_gen)

lemma set_canon_re:
  "distinct (map fst (re_Data re)) \<Longrightarrow>
   set (canon_re re) = (\<lambda>(l, de). (l, de_Data de)) ` set (re_Data re)"
  unfolding canon_re_def by (rule set_canon_gen)

lemma canon_levels:
  assumes "wf_ResourceSet rs"
  shows "sorted (map fst (canon rs))" "distinct (map fst (canon rs))"
    and "(t, rt) \<in> set (canon rs) \<Longrightarrow> sorted (map fst rt) \<and> distinct (map fst rt)"
    and "(t, rt) \<in> set (canon rs) \<Longrightarrow> (r, lt) \<in> set rt \<Longrightarrow>
           sorted (map fst lt) \<and> distinct (map fst lt)"
proof -
  from assms have d: "distinct (map fst (Types rs))" by (simp add: wf_ResourceSet_def)
  show "sorted (map fst (canon rs))" "distinct (map fst (canon rs))" using d by simp_all
  {
    assume "(t, rt) \<in> set (canon rs)"
    then obtain te where te: "(t, te) \<in> set (Types rs)" and rt: "rt = canon_te te"
      using set_canon[OF d] by auto
    from te assms have dr: "distinct (map fst (Resources te))"
      by (auto simp: wf_ResourceSet_def)
    show "sorted (map fst rt) \<and> distinct (map fst rt)" using dr rt by simp
    assume "(r, lt) \<in> set rt"
    then obtain re where re: "(r, re) \<in> set (Resources te)" and lt: "lt = canon_re re"
      using set_canon_te[OF dr] rt by auto
    from te re assms have "distinct (map fst (re_Data re))"
      by (fastforce simp: wf_ResourceSet_def)
    then show "sorted (map fst lt) \<and> distinct (map fst lt)" using lt by simp
  }
qed

lemma in_all_res: "(r, lt) \<in> set (all_res T) \<Longrightarrow> \<exists>t rt. (t, rt) \<in> set T \<and> (r, lt) \<in> set rt"
  unfolding all_res_def by fastforce

lemma set_map2_D: "x \<in> set (map2 f xs ys) \<Longrightarrow> \<exists>a b. a \<in> set xs \<and> b \<in> set ys \<and> x = f a b"
proof -
  assume "x \<in> set (map2 f xs ys)"
  then obtain a b where "(a, b) \<in> set (zip xs ys)" "x = f a b" by auto
  then show ?thesis by (metis set_zip_leftD set_zip_rightD)
qed

lemma tree_dirs_concat: "concat (map snd (tree_dirs T)) = layer1 T @ layer2 T @ layer3 T"
proof -
  have a: "snd \<circ> (\<lambda>((t, rs), base). (g t rs, h t rs base)) = (\<lambda>((t, rs), base). h t rs base)"
    for g :: "'a \<Rightarrow> 'b \<Rightarrow> 'd" and h :: "'a \<Rightarrow> 'b \<Rightarrow> nat \<Rightarrow> 'c"
    by (auto simp: fun_eq_iff)
  show ?thesis
    unfolding tree_dirs_def layer2_def layer3_def by (simp add: a)
qed

lemma in_tree_dirs:
  assumes "(ks, blk) \<in> set (tree_dirs T)"
  shows "(ks = map fst T \<and> blk = layer1 T)
       \<or> (\<exists>t rt base. (t, rt) \<in> set T \<and> ks = map fst rt
            \<and> blk = enc_dir (nameOffset (tree_state T)) True (map fst rt) (offsets base (re_sizes rt)))
       \<or> (\<exists>r lt base. (r, lt) \<in> set (all_res T) \<and> ks = map (ID \<circ> fst) lt
            \<and> blk = enc_dir [] False (map (ID \<circ> fst) lt) (offsets base (replicate (length lt) 16)))"
proof -
  let ?f = "\<lambda>(t, rs) base.
         (map fst rs, enc_dir (nameOffset (tree_state T)) True (map fst rs) (offsets base (re_sizes rs)))"
  let ?g = "\<lambda>(r, ls) base.
         (map (ID \<circ> fst) ls,
          enc_dir [] False (map (ID \<circ> fst) ls) (offsets base (replicate (length ls) 16)))"
  from assms consider "(ks, blk) = (map fst T, layer1 T)"
    | "(ks, blk) \<in> set (map2 ?f T (offsets (off3 T) (map (\<lambda>(t, rs). sum_list (re_sizes rs)) T)))"
    | "(ks, blk) \<in> set (map2 ?g (all_res T) (offsets (off4 T) (map (\<lambda>(r, ls). 16 * length ls) (all_res T))))"
    unfolding tree_dirs_def by (simp only: list.set set_append insert_iff Un_iff) blast
  then show ?thesis
  proof cases
    case 1
    then show ?thesis by simp
  next
    case 2
    from set_map2_D[OF this] obtain a b where a: "a \<in> set T" and e: "(ks, blk) = ?f a b" by blast
    obtain t rt where p: "a = (t, rt)" by (cases a)
    from e p have "ks = map fst rt"
      "blk = enc_dir (nameOffset (tree_state T)) True (map fst rt) (offsets b (re_sizes rt))"
      by simp_all
    with a p show ?thesis by blast
  next
    case 3
    from set_map2_D[OF this] obtain a b where a: "a \<in> set (all_res T)" and e: "(ks, blk) = ?g a b"
      by blast
    obtain r lt where p: "a = (r, lt)" by (cases a)
    from e p have "ks = map (ID \<circ> fst) lt"
      "blk = enc_dir [] False (map (ID \<circ> fst) lt) (offsets b (replicate (length lt) 16))"
      by simp_all
    with a p show ?thesis by blast
  qed
qed

lemma tree_dirs_ordered:
  assumes "wf_ResourceSet rs" "(ks, blk) \<in> set (tree_dirs (canon rs))"
  shows "level_ordered ks
       \<and> (\<exists>noff sub offs. blk = enc_dir noff sub ks offs \<and> length offs = length ks)"
proof -
  let ?T = "canon rs"
  note lv = canon_levels[OF assms(1)]
  from assms(2) consider
      (a) "ks = map fst ?T" "blk = layer1 ?T"
    | (b) t rt base where "(t, rt) \<in> set ?T" "ks = map fst rt"
        "blk = enc_dir (nameOffset (tree_state ?T)) True (map fst rt) (offsets base (re_sizes rt))"
    | (c) r lt base where "(r, lt) \<in> set (all_res ?T)" "ks = map (ID \<circ> fst) lt"
        "blk = enc_dir [] False (map (ID \<circ> fst) lt) (offsets base (replicate (length lt) 16))"
    using in_tree_dirs[OF assms(2)] by blast
  then show ?thesis
  proof cases
    case a
    have "level_ordered ks" unfolding a using lv(1,2) by (rule level_ordered_sorted)
    moreover have "length (offsets (off2 ?T) (te_sizes ?T)) = length ?T"
      by (simp add: length_offsets te_sizes_def del: length_canon)
    ultimately show ?thesis unfolding a(2) layer1_def using a(1) 
      by (metis length_map)
  next
    case b
    have "level_ordered ks" unfolding b using lv(3)[OF b(1)] by (simp add: level_ordered_sorted)
    moreover have "length (offsets base (re_sizes rt)) = length rt"
      by (simp add: length_offsets re_sizes_def)
    ultimately show ?thesis unfolding b(3) using b(2) by (metis length_map)
  next
    case c
    from in_all_res[OF c(1)] obtain t rt where "(t, rt) \<in> set ?T" "(r, lt) \<in> set rt" by blast
    from lv(4)[OF this] have "level_ordered (map ID (map fst lt))"
      using level_ordered_langs by blast
    then have "level_ordered ks" unfolding c by simp
    moreover have "length (offsets base (replicate (length lt) 16)) = length lt"
      by (simp add: length_offsets)
    ultimately show ?thesis unfolding c(3) using c(2) by (metis length_map)
  qed
qed

lemma sorted_filter_takeWhile_Name:
  assumes "sorted (ks :: Identifier list)"
  shows "filter is_Name ks = takeWhile is_Name ks"
  using assms
proof (induction ks)
  case Nil
  then show ?case by simp
next
  case (Cons k ks)
  show ?case
  proof (cases k)
    case (Name n)
    then show ?thesis using Cons by simp
  next
    case (ID a)
    have "\<not> is_Name x" if "x \<in> set ks" for x
    proof -
      from Cons.prems that have "k \<le> x" by simp
      then show ?thesis using ID by (cases x) (auto simp: less_eq_Identifier_def)
    qed
    then have "filter is_Name ks = []" by (simp add: filter_empty_conv)
    then show ?thesis using ID by simp
  qed
qed


lemma sorted_map_ID: "sorted (ls :: uint16 list) \<Longrightarrow> sorted (map ID ls)"
  by (induction ls) (auto simp: less_eq_Identifier_def order_le_less)

lemma header_encode_tree:
  "get_u16 (drop 12 (encode_tree T)) = word_of_nat (length (filter is_Name (map fst T)))"
  by (simp add: encode_tree_def layer1_def enc_dir_def writeDirectoryTable_def)

text \<open>
  Claim C3, as amended. When the order caches of the set are coherent, the output begins
  with its directories, and in every directory the entries follow the ordering law: a name
  precedes an ordinal, names ascend in the lexicographic order of their runes, ordinals
  ascend numerically. The 16-bit count of name entries of the header holds the number of
  leading name entries modulo 65536, hence that number whenever the directory has fewer
  than 65536 entries.
\<close>

theorem directory_ordering_law:
  assumes "wf_ResourceSet rs" "caches_ok rs" "coherent rs"
  shows "\<exists>b r rs1. ResourceSet_write rs = Some (b, r, rs1)
      \<and> take (off4 (canon rs)) b = concat (map snd (tree_dirs (canon rs)))
      \<and> (\<forall>(ks, blk) \<in> set (tree_dirs (canon rs)).
           level_ordered ks
           \<and> (\<exists>noff sub offs. blk = enc_dir noff sub ks offs \<and> length offs = length ks)
           \<and> get_u16 (drop 12 blk) = word_of_nat (length (takeWhile is_Name ks))
           \<and> (length ks < 65536 \<longrightarrow> unat (get_u16 (drop 12 blk)) = length (takeWhile is_Name ks)))"
proof -
  let ?T = "canon rs"
  have t: "take (off4 ?T) (encode_tree ?T) = concat (map snd (tree_dirs ?T))"
  proof -
    have "encode_tree ?T = (layer1 ?T @ layer2 ?T @ layer3 ?T) @ layer4 ?T @ layer5 ?T @ layer6 ?T"
      by (simp add: encode_tree_def)
    then have "take (off4 ?T) (encode_tree ?T) = layer1 ?T @ layer2 ?T @ layer3 ?T"
      using length_layers_1_3[of ?T] by (metis append_eq_conv_conj)
    then show ?thesis by (simp only: tree_dirs_concat)
  qed
  have d: "level_ordered ks
      \<and> (\<exists>noff sub offs. blk = enc_dir noff sub ks offs \<and> length offs = length ks)
      \<and> get_u16 (drop 12 blk) = word_of_nat (length (takeWhile is_Name ks))
      \<and> (length ks < 65536 \<longrightarrow> unat (get_u16 (drop 12 blk)) = length (takeWhile is_Name ks))"
    if m: "(ks, blk) \<in> set (tree_dirs ?T)" for ks blk
  proof -
    from tree_dirs_ordered[OF assms(1) m] obtain noff sub offs
      where lo: "level_ordered ks" and blk: "blk = enc_dir noff sub ks offs"
        and len: "length offs = length ks" by blast
    have s: "sorted ks"
      using in_tree_dirs[OF m] canon_levels[OF assms(1)]
    proof (elim disjE exE conjE)
      fix r lt base assume a: "(r, lt) \<in> set (all_res ?T)" "ks = map (ID \<circ> fst) lt"
      from in_all_res[OF a(1)] obtain t rt where "(t, rt) \<in> set ?T" "(r, lt) \<in> set rt" by blast
      from canon_levels(4)[OF assms(1) this] have "sorted (map fst lt)" by simp
      then have "sorted (map ID (map fst lt))" by (rule sorted_map_ID)
      then show "sorted ks" using a(2) by simp
    qed auto
    have h: "get_u16 (drop 12 blk) = word_of_nat (length (takeWhile is_Name ks))"
      unfolding blk header_names_count sorted_filter_takeWhile_Name[OF s] ..
    have "length (takeWhile is_Name ks) \<le> length ks" by (rule length_takeWhile_le)
    then have "length ks < 65536 \<longrightarrow> unat (get_u16 (drop 12 blk)) = length (takeWhile is_Name ks)"
      unfolding h by (simp add: unsigned_of_nat take_bit_nat_eq_self)
    with lo blk len h show ?thesis by blast
  qed
  show ?thesis
  proof (intro exI conjI)
    show "ResourceSet_write rs
        = Some (encode_tree ?T, reloc_tree ?T, fst (ResourceSet_order rs empty_state))"
      by (rule write_tree[OF assms])
    show "take (off4 ?T) (encode_tree ?T) = concat (map snd (tree_dirs ?T))" by (rule t)
    show "\<forall>(ks, blk) \<in> set (tree_dirs ?T).
           level_ordered ks
           \<and> (\<exists>noff sub offs. blk = enc_dir noff sub ks offs \<and> length offs = length ks)
           \<and> get_u16 (drop 12 blk) = word_of_nat (length (takeWhile is_Name ks))
           \<and> (length ks < 65536 \<longrightarrow> unat (get_u16 (drop 12 blk)) = length (takeWhile is_Name ks))"
    proof (intro ballI)
      fix p assume p: "p \<in> set (tree_dirs ?T)"
      obtain ks blk where e: "p = (ks, blk)" by (cases p)
      from p show "case p of (ks, blk) \<Rightarrow>
           level_ordered ks
           \<and> (\<exists>noff sub offs. blk = enc_dir noff sub ks offs \<and> length offs = length ks)
           \<and> get_u16 (drop 12 blk) = word_of_nat (length (takeWhile is_Name ks))
           \<and> (length ks < 65536 \<longrightarrow> unat (get_u16 (drop 12 blk)) = length (takeWhile is_Name ks))"
        unfolding e prod.case by (rule d)
    qed
  qed
qed

lemma map_fst_map2_offsets:
  "map fst (map2 (\<lambda>x base. (g x, h x base)) xs (offsets off (map f xs))) = map g xs"
  by (induction xs arbitrary: off) simp_all

lemma keys_tree_dirs:
  "map fst (tree_dirs T)
     = map fst T # map (\<lambda>(t, rt). map fst rt) T @ map (\<lambda>(r, lt). map (ID \<circ> fst) lt) (all_res T)"
proof -
  have a: "(\<lambda>(t, rs) base. (g t rs, h t rs base)) = (\<lambda>x base. (case x of (t, rs) \<Rightarrow> g t rs, case x of (t, rs) \<Rightarrow> h t rs base))"
    for g :: "'a \<Rightarrow> 'b \<Rightarrow> 'c" and h :: "'a \<Rightarrow> 'b \<Rightarrow> nat \<Rightarrow> 'd"
    by (auto simp: fun_eq_iff)
  show ?thesis
    unfolding tree_dirs_def list.map map_append a map_fst_map2_offsets fst_conv ..
qed

lemma example_operations_canon:
  "canon (run_operations example_operations) = [(ID 3, [(Name [97], [(0, [2])]), (ID 1, [(0, [1])])])]"
  by code_simp

lemma example_operations_dirs:
  "map fst (tree_dirs (canon (run_operations example_operations)))
     = [[ID 3], [Name [97], ID 1], [ID 0], [ID 0]]"
  unfolding keys_tree_dirs example_operations_canon by (simp add: all_res_def)

theorem directory_ordering_law_witness:
  "wf_ResourceSet (run_operations example_operations)
   \<and> caches_ok (run_operations example_operations)
   \<and> coherent (run_operations example_operations)
   \<and> map fst (tree_dirs (canon (run_operations example_operations)))
       = [[ID 3], [Name [97], ID 1], [ID 0], [ID 0]]
   \<and> level_ordered [Name [97], ID 1]
   \<and> unat (get_u16 (drop 12 (snd (tree_dirs (canon (run_operations example_operations)) ! 1)))) = 1"
proof -
  let ?d = "tree_dirs (canon (run_operations example_operations))"
  have l: "length ?d = 4" using arg_cong[OF example_operations_dirs, of length] by simp
  have f: "fst (?d ! 1) = [Name [97], ID 1]"
    using arg_cong[OF example_operations_dirs, of "\<lambda>xs. xs ! 1"] l by simp
  have "?d ! 1 \<in> set ?d" by (simp add: l)
  then have m: "([Name [97], ID 1], snd (?d ! 1)) \<in> set ?d"
    by (metis f prod.collapse)
  from directory_ordering_law [OF example_operations_invariants]
  have "\<forall>(ks, blk) \<in> set ?d. level_ordered ks
      \<and> (length ks < 65536 \<longrightarrow> unat (get_u16 (drop 12 blk)) = length (takeWhile is_Name ks))"
    by (elim exE conjE) (simp only: split_def, blast)
  from bspec[OF this m]
  have "level_ordered [Name [97], ID 1]
      \<and> unat (get_u16 (drop 12 (snd (?d ! 1)))) = length (takeWhile is_Name [Name [97], ID 1])"
    by simp
  then show ?thesis
    using example_operations_invariants example_operations_dirs by simp
qed


lemma many_names_invariants:
  "wf_ResourceSet many_names" "caches_ok many_names" "coherent many_names"
proof -
  have "inj_on (\<lambda>i. Name (replicate (Suc i) (97::nat))) A" for A
    by (rule inj_onI) (metis Identifier.inject(2) length_replicate nat.inject)
  then show "wf_ResourceSet many_names"
    by (auto simp: wf_ResourceSet_def many_names_def comp_def distinct_map)
  show "caches_ok many_names"
    by (auto simp: caches_ok_def many_names_def te_cache_ok_def re_cache_ok_def)
  show "coherent many_names"
    by (auto simp: coherent_def many_names_def)
qed

lemma many_names_keys:
  "filter is_Name (map fst (canon many_names)) = map fst (canon many_names)"
  "takeWhile is_Name (map fst (canon many_names)) = map fst (canon many_names)"
  "length (map fst (canon many_names)) = 65536"
proof -
  have "\<forall>k \<in> set (map fst (canon many_names)). is_Name k"
    by (auto simp: many_names_def)
  then show "filter is_Name (map fst (canon many_names)) = map fst (canon many_names)"
    "takeWhile is_Name (map fst (canon many_names)) = map fst (canon many_names)"
    by (simp_all only: filter_id_conv takeWhile_eq_all_conv)
  show "length (map fst (canon many_names)) = 65536"
    by (simp add: many_names_def many_def)
qed

text \<open>
  Claim C3, as the specification states it, at a set of 65536 named types: the type
  directory of the output lists 65536 name entries, and the count of name entries of its
  header is 0.
\<close>

theorem header_count_counterexample:
  "map_option (\<lambda>(b, r, rs1). unat (get_u16 (drop 12 b))) (ResourceSet_write many_names) = Some 0
   \<and> length (takeWhile is_Name (map fst (canon many_names))) = 65536"
proof -
  have "get_u16 (drop 12 (encode_tree (canon many_names))) = word_of_nat 65536"
    unfolding header_encode_tree many_names_keys ..
  then have "unat (get_u16 (drop 12 (encode_tree (canon many_names)))) = 0" by simp
  then show ?thesis
    unfolding write_tree[OF many_names_invariants] many_names_keys by simp
qed

section \<open>Locating the blocks of the output\<close>

lemma offsets_nth: "i < length ns \<Longrightarrow> offsets off ns ! i = off + sum_list (take i ns)"
proof (induction ns arbitrary: off i)
  case Nil
  then show ?case by simp
next
  case (Cons n ns)
  then show ?case by (cases i) (simp_all add: add.assoc)
qed

lemma drop_concat_nth:
  "i < length bs \<Longrightarrow>
   drop (sum_list (map length (take i bs))) (concat bs) = bs ! i @ concat (drop (Suc i) bs)"
proof (induction bs arbitrary: i)
  case Nil
  then show ?case by simp
next
  case (Cons b bs)
  then show ?case by (cases i) simp_all
qed

lemma all_data_triples: "all_data T = map (\<lambda>(t, r, l, d). (l, d)) (triples T)"
proof -
  have r: "concat (map snd rt) = map snd (res_triples rt)" for rt :: res_tree
    by (induction rt) (auto simp: res_triples_def comp_def)
  have "concat (map snd (concat (map snd T))) = map (\<lambda>(t, r, l, d). (l, d)) (triples T)"
    by (induction T) (auto simp: triples_def r comp_def)
  then show ?thesis by (simp add: all_data_def all_res_def)
qed

lemma payload_offsets_alt:
  "payload_offsets T = offsets (off6 T) (map (\<lambda>(l, d). alignData (length d)) (all_data T))"
  by (simp add: payload_offsets_def all_data_triples comp_def case_prod_unfold)

lemma length_payload_offsets [simp]: "length (payload_offsets T) = length (triples T)"
  by (simp add: payload_offsets_def)

lemma length_all_data_triples [simp]: "length (all_data T) = length (triples T)"
  by (simp add: all_data_triples)

lemma layer4_block:
  assumes "i < length (triples T)" "triples T ! i = (t, r, l, d)"
  shows "drop (16 * i) (layer4 T)
       = writeDataEntry (payload_offsets T ! i) (length d) @ drop (16 * Suc i) (layer4 T)"
proof -
  let ?f = "\<lambda>(l, d) rva. writeDataEntry rva (length d)"
  let ?bs = "map2 ?f (all_data T) (payload_offsets T)"
  have l4: "layer4 T = concat ?bs" by (simp add: layer4_def payload_offsets_alt)
  have len: "length ?bs = length (triples T)" by simp
  have each: "map length ?bs = replicate (length (triples T)) 16"
    by (rule nth_equalityI) (auto simp: length_writeDataEntry split: prod.splits)
  have s: "sum_list (map length (take j ?bs)) = 16 * j" if "j \<le> length (triples T)" for j
    using that by (simp add: take_map[symmetric] each min_def sum_list_replicate del: map_map length_map)
  have d: "all_data T ! i = (l, d)" using assms by (simp add: all_data_triples)
  have b: "?bs ! i = writeDataEntry (payload_offsets T ! i) (length d)"
    using assms(1) d by simp
  have "drop (16 * i) (concat ?bs) = ?bs ! i @ concat (drop (Suc i) ?bs)"
    using drop_concat_nth[of i ?bs] assms(1) s[of i] len by simp
  moreover have "concat (drop (Suc i) ?bs) = drop (16 * Suc i) (concat ?bs)"
  proof (cases "Suc i < length ?bs")
    case True
    have "drop (16 * Suc i) (concat ?bs) = ?bs ! Suc i @ concat (drop (Suc (Suc i)) ?bs)"
      using drop_concat_nth[OF True] s[of "Suc i"] True len by simp
    then show ?thesis using True by (simp add: Cons_nth_drop_Suc[symmetric] del: length_map)
  next
    case False
    then have "Suc i = length ?bs" using assms(1) len by simp
    moreover have "length (concat ?bs) = 16 * length (triples T)"
      using s[of "length (triples T)"] len by (simp add: length_concat del: length_map)
    ultimately show ?thesis using len by simp
  qed
  ultimately show ?thesis unfolding l4 b by simp
qed


lemma layer6_triples:
  "layer6 T = concat (map (\<lambda>(t, r, l, d). d @ replicate (alignData (length d) - length d) 0) (triples T))"
  by (simp add: layer6_def all_data_triples comp_def case_prod_unfold)

lemma length_padded: "length (d @ replicate (alignData (length d) - length d) (0::byte)) = alignData (length d)"
  using alignData_bounds[of "length d"] by simp

lemma length_padded_comp:
  "length \<circ> (\<lambda>(t, r, l, d). d @ replicate (alignData (length d) - length d) (0::byte))
     = (\<lambda>(t, r, l, d). alignData (length d))"
  using alignData_bounds(2) by (auto simp: fun_eq_iff)

lemma layer6_block:
  assumes "i < length (triples T)" "triples T ! i = (t, r, l, d)"
  shows "\<exists>rest. drop (payload_offsets T ! i - off6 T) (layer6 T) = d @ rest"
    and "off6 T \<le> payload_offsets T ! i"
proof -
  let ?g = "\<lambda>(t, r, l, d). d @ replicate (alignData (length d) - length d) (0::byte)"
  let ?bs = "map ?g (triples T)"
  have each: "map length ?bs = map (\<lambda>(t, r, l, d). alignData (length d)) (triples T)"
    unfolding map_map length_padded_comp ..
  have p: "payload_offsets T ! i
      = off6 T + sum_list (take i (map (\<lambda>(t, r, l, d). alignData (length d)) (triples T)))"
    unfolding payload_offsets_def using assms(1) by (simp add: offsets_nth)
  then show "off6 T \<le> payload_offsets T ! i" by simp
  have "drop (sum_list (map length (take i ?bs))) (concat ?bs) = ?bs ! i @ concat (drop (Suc i) ?bs)"
    by (rule drop_concat_nth) (simp add: assms(1))
  moreover have "map length (take i ?bs) = take i (map (\<lambda>(t, r, l, d). alignData (length d)) (triples T))"
    unfolding take_map[symmetric] each ..
  moreover have "?bs ! i = d @ replicate (alignData (length d) - length d) 0"
    using assms by simp
  ultimately show "\<exists>rest. drop (payload_offsets T ! i - off6 T) (layer6 T) = d @ rest"
    unfolding layer6_triples p by simp
qed

lemma length_layer6:
  "length (layer6 T) = sum_list (map (\<lambda>(t, r, l, d). alignData (length d)) (triples T))"
  unfolding layer6_triples length_concat map_map length_padded_comp ..

lemma drop_encode_tree_4:
  "drop (off4 T) (encode_tree T) = layer4 T @ layer5 T @ layer6 T"
proof -
  have "encode_tree T = (layer1 T @ layer2 T @ layer3 T) @ layer4 T @ layer5 T @ layer6 T"
    by (simp add: encode_tree_def)
  then show ?thesis using length_layers_1_3[of T] by (metis append_eq_conv_conj)
qed

lemma drop_encode_tree_6: "drop (off6 T) (encode_tree T) = layer6 T"
proof -
  have "encode_tree T = (layer1 T @ layer2 T @ layer3 T @ layer4 T @ layer5 T) @ layer6 T"
    by (simp add: encode_tree_def)
  then show ?thesis using length_layers_1_5[of T] by (metis append_eq_conv_conj)
qed

lemma length_encode_tree: "length (encode_tree T) = off6 T + length (layer6 T)"
proof -
  have "encode_tree T = (layer1 T @ layer2 T @ layer3 T @ layer4 T @ layer5 T) @ layer6 T"
    by (simp add: encode_tree_def)
  then show ?thesis using length_layers_1_5[of T] by (metis length_append)
qed

lemma reloc_tree_nth:
  "i < length (triples T) \<Longrightarrow> reloc_tree T ! i = off4 T + 16 * i"
  by (simp add: reloc_tree_def offsets_nth min_def sum_list_replicate)

lemma length_reloc_tree [simp]: "length (reloc_tree T) = length (triples T)"
  by (simp add: reloc_tree_def)

lemma data_record_at:
  assumes "i < length (triples T)" "triples T ! i = (t, r, l, d)"
  shows "\<exists>rest. drop (reloc_tree T ! i) (encode_tree T)
           = writeDataEntry (payload_offsets T ! i) (length d) @ rest"
    and "reloc_tree T ! i + 16 \<le> off5 T"
proof -
  have "drop (reloc_tree T ! i) (encode_tree T) = drop (16 * i) (drop (off4 T) (encode_tree T))"
    by (simp add: reloc_tree_nth[OF assms(1)] add.commute)
  also have "\<dots> = drop (16 * i) (layer4 T) @ layer5 T @ layer6 T"
    using assms(1) by (simp add: drop_encode_tree_4 length_layer4)
  finally show "\<exists>rest. drop (reloc_tree T ! i) (encode_tree T)
           = writeDataEntry (payload_offsets T ! i) (length d) @ rest"
    using layer4_block[OF assms] by simp
  show "reloc_tree T ! i + 16 \<le> off5 T"
    using assms(1) by (simp add: reloc_tree_nth off5_def)
qed

lemma payload_at:
  assumes "i < length (triples T)" "triples T ! i = (t, r, l, d)"
  shows "\<exists>rest. drop (payload_offsets T ! i) (encode_tree T) = d @ rest"
    and "payload_offsets T ! i + length d \<le> length (encode_tree T)"
proof -
  from layer6_block[OF assms] obtain rest
    where r: "drop (payload_offsets T ! i - off6 T) (layer6 T) = d @ rest"
      and le: "off6 T \<le> payload_offsets T ! i" by blast
  have "drop (payload_offsets T ! i) (encode_tree T)
      = drop (payload_offsets T ! i - off6 T) (drop (off6 T) (encode_tree T))"
    using le by simp
  then have e: "drop (payload_offsets T ! i) (encode_tree T) = d @ rest"
    by (simp only: drop_encode_tree_6 r)
  then show "\<exists>rest. drop (payload_offsets T ! i) (encode_tree T) = d @ rest" by blast
  have "length (drop (payload_offsets T ! i) (encode_tree T)) \<ge> length d"
    unfolding e by simp
  moreover have "payload_offsets T ! i \<le> length (encode_tree T) \<or> d = []"
    using e by (cases "payload_offsets T ! i \<le> length (encode_tree T)") auto
  moreover have "payload_offsets T ! i \<le> length (encode_tree T)"
  proof -
    have "payload_offsets T ! i
        = off6 T + sum_list (take i (map (\<lambda>(t, r, l, d). alignData (length d)) (triples T)))"
      unfolding payload_offsets_def using assms(1) by (simp add: offsets_nth)
    moreover have "sum_list (take i xs) \<le> sum_list xs" for xs :: "nat list"
      by (metis append_take_drop_id le_add1 sum_list_append)
    ultimately show ?thesis
      unfolding length_encode_tree length_layer6 by simp
  qed
  ultimately show "payload_offsets T ! i + length d \<le> length (encode_tree T)" by simp
qed


section \<open>The triples of a set\<close>

lemma in_res_triples:
  "(r, l, d) \<in> set (res_triples rt) \<longleftrightarrow> (\<exists>lt. (r, lt) \<in> set rt \<and> (l, d) \<in> set lt)"
  unfolding res_triples_def by auto

lemma in_triples:
  "(t, r, l, d) \<in> set (triples T)
     \<longleftrightarrow> (\<exists>rt lt. (t, rt) \<in> set T \<and> (r, lt) \<in> set rt \<and> (l, d) \<in> set lt)"
proof -
  have "(t, r, l, d) \<in> set (triples T) \<longleftrightarrow> (\<exists>rt. (t, rt) \<in> set T \<and> (r, l, d) \<in> set (res_triples rt))"
    unfolding triples_def by auto
  then show ?thesis by (simp only: in_res_triples) blast
qed

lemma Get_canon:
  assumes "wf_ResourceSet rs"
  shows "(t, r, l, d) \<in> set (triples (canon rs)) \<longleftrightarrow> ResourceSet_Get rs t r l = Some d"
proof
  assume "(t, r, l, d) \<in> set (triples (canon rs))"
  then obtain rt lt where a: "(t, rt) \<in> set (canon rs)" "(r, lt) \<in> set rt" "(l, d) \<in> set lt"
    unfolding in_triples by blast
  from assms have dt: "distinct (map fst (Types rs))" by (simp add: wf_ResourceSet_def)
  from a(1) obtain te where te: "(t, te) \<in> set (Types rs)" "rt = canon_te te"
    using set_canon[OF dt] by auto
  from te(1) assms have dr: "distinct (map fst (Resources te))" by (auto simp: wf_ResourceSet_def)
  from a(2) te(2) obtain re where re: "(r, re) \<in> set (Resources te)" "lt = canon_re re"
    using set_canon_te[OF dr] by auto
  from te(1) re(1) assms have dl: "distinct (map fst (re_Data re))"
    by (fastforce simp: wf_ResourceSet_def)
  from a(3) re(2) obtain de where de: "(l, de) \<in> set (re_Data re)" "d = de_Data de"
    using set_canon_re[OF dl] by auto
  have "map_of (Types rs) t = Some te" using dt te(1) by simp
  moreover have "map_of (Resources te) r = Some re" using dr re(1) by simp
  moreover have "map_of (re_Data re) l = Some de" using dl de(1) by simp
  ultimately show "ResourceSet_Get rs t r l = Some d" by (simp add: ResourceSet_Get_def de(2))
next
  assume g: "ResourceSet_Get rs t r l = Some d"
  then obtain te re de where m: "map_of (Types rs) t = Some te" "map_of (Resources te) r = Some re"
    "map_of (re_Data re) l = Some de" "d = de_Data de"
    by (auto simp: ResourceSet_Get_def split: option.splits)
  from assms have dt: "distinct (map fst (Types rs))" by (simp add: wf_ResourceSet_def)
  have te: "(t, te) \<in> set (Types rs)" using m(1) by (rule map_of_SomeD)
  from te assms have dr: "distinct (map fst (Resources te))" by (auto simp: wf_ResourceSet_def)
  have re: "(r, re) \<in> set (Resources te)" using m(2) by (rule map_of_SomeD)
  from te re assms have dl: "distinct (map fst (re_Data re))"
    by (fastforce simp: wf_ResourceSet_def)
  have de: "(l, de) \<in> set (re_Data re)" using m(3) by (rule map_of_SomeD)
  have "(t, canon_te te) \<in> set (canon rs)" using set_canon[OF dt] te by force
  moreover have "(r, canon_re re) \<in> set (canon_te te)" using set_canon_te[OF dr] re by force
  moreover have "(l, d) \<in> set (canon_re re)" using set_canon_re[OF dl] de m(4) by force
  ultimately show "(t, r, l, d) \<in> set (triples (canon rs))" unfolding in_triples by blast
qed

lemma distinct_keys_concat:
  assumes "distinct (map fst xs)" "\<And>k ys. (k, ys) \<in> set xs \<Longrightarrow> distinct (map kf ys)"
  shows "distinct (map (\<lambda>(k, y). (k, kf y)) (concat (map (\<lambda>(k, ys). map (Pair k) ys) xs)))"
  using assms
proof (induction xs)
  case Nil
  then show ?case by simp
next
  case (Cons x xs)
  obtain k ys where x: "x = (k, ys)" by (cases x)
  have 1: "distinct (map (\<lambda>(k, y). (k, kf y)) (map (Pair k) ys))"
    using Cons.prems(2)[of k ys] x by (simp add: comp_def distinct_map inj_on_def)
  have 2: "distinct (map (\<lambda>(k, y). (k, kf y)) (concat (map (\<lambda>(k, ys). map (Pair k) ys) xs)))"
  proof (rule Cons.IH)
    show "distinct (map fst xs)" using Cons.prems(1) by simp
    fix k ys assume "(k, ys) \<in> set xs"
    then show "distinct (map kf ys)" using Cons.prems(2)[of k ys] by simp
  qed
  have 3: "fst ` set (concat (map (\<lambda>(k, ys). map (Pair k) ys) xs)) \<subseteq> fst ` set xs" for xs :: "('a \<times> 'b list) list"
    by force
  have "k \<notin> fst ` set xs" using Cons.prems(1) x by simp
  then have "k \<notin> fst ` set (concat (map (\<lambda>(k, ys). map (Pair k) ys) xs))" using 3 by blast
  then have 4: "set (map (\<lambda>(k, y). (k, kf y)) (map (Pair k) ys))
      \<inter> set (map (\<lambda>(k, y). (k, kf y)) (concat (map (\<lambda>(k, ys). map (Pair k) ys) xs))) = {}"
    by force
  show ?case using 1 2 4 by (simp add: x)
qed

lemma distinct_triples:
  assumes "distinct (map fst T)"
    and "\<And>t rt. (t, rt) \<in> set T \<Longrightarrow> distinct (map fst rt)"
    and "\<And>t rt r lt. (t, rt) \<in> set T \<Longrightarrow> (r, lt) \<in> set rt \<Longrightarrow> distinct (map fst lt)"
  shows "distinct (map triple_key (triples T))"
proof -
  have i: "distinct (map (\<lambda>(r, y). (r, fst y)) (res_triples rt))" if "(t, rt) \<in> set T" for t rt
    unfolding res_triples_def
  proof (rule distinct_keys_concat)
    show "distinct (map fst rt)" using assms(2) that by blast
    fix r lt assume "(r, lt) \<in> set rt"
    then show "distinct (map fst lt)" using assms(3) that by blast
  qed
  let ?xs = "map (\<lambda>(t, rt). (t, res_triples rt)) T"
  have e: "triples T = concat (map (\<lambda>(k, ys). map (Pair k) ys) ?xs)"
    by (simp add: triples_def comp_def case_prod_unfold)
  have "distinct (map (\<lambda>(t, y). (t, (\<lambda>(r, y). (r, fst y)) y)) (triples T))"
    unfolding e
  proof (rule distinct_keys_concat)
    show "distinct (map fst ?xs)" using assms(1) by (simp add: fst_comp_map_snd)
    fix t ys assume "(t, ys) \<in> set ?xs"
    then obtain rt where "(t, rt) \<in> set T" "ys = res_triples rt" by auto
    then show "distinct (map (\<lambda>(r, y). (r, fst y)) ys)" using i by blast
  qed
  moreover have "(\<lambda>(t, y). (t, (\<lambda>(r, y). (r, fst y)) y)) = triple_key"
    by (auto simp: triple_key_def fun_eq_iff)
  ultimately show ?thesis by simp
qed

lemma distinct_triples_canon:
  "wf_ResourceSet rs \<Longrightarrow> distinct (map triple_key (triples (canon rs)))"
  by (rule distinct_triples) (use canon_levels in blast)+

lemma sum_canon_gen:
  assumes "distinct (map fst al)"
  shows "sum_list (map (\<lambda>(k, v). g v)
           (map (\<lambda>k. (k, case map_of al k of Some v \<Rightarrow> f v | None \<Rightarrow> d)) (sort (map fst al))))
       = (sum_list (map (\<lambda>(k, v). g (f v)) al) :: nat)"
proof -
  have c: "(case map_of al k of Some v \<Rightarrow> f v | None \<Rightarrow> d) = f (the (map_of al k))"
    if "k \<in> set (sort (map fst al))" for k
    using in_keys_map_of[of k al] that by auto
  have "map ((\<lambda>(k, v). g v) \<circ> (\<lambda>k. (k, case map_of al k of Some v \<Rightarrow> f v | None \<Rightarrow> d)))
           (sort (map fst al))
      = map (\<lambda>k. g (f (the (map_of al k)))) (sort (map fst al))"
    by (rule map_cong[OF refl]) (simp add: c)
  then show ?thesis
    unfolding map_map using sum_sorted_keys[OF assms, of "\<lambda>v. g (f v)"] by (simp only:)
qed

lemma length_res_triples: "length (res_triples rt) = sum_list (map (\<lambda>(r, lt). length lt) rt)"
  by (induction rt) (auto simp: res_triples_def)

lemma length_triples: "length (triples T) = sum_list (map (\<lambda>(t, rt). length (res_triples rt)) T)"
  by (induction T) (auto simp: triples_def)

lemma length_triples_canon:
  assumes "wf_ResourceSet rs"
  shows "length (triples (canon rs)) = numDataEntries rs"
proof -
  from assms have dt: "distinct (map fst (Types rs))" by (simp add: wf_ResourceSet_def)
  have r: "length (res_triples (canon_te te)) = sum_list (map (\<lambda>(r, re). length (re_Data re)) (Resources te))"
    if "(t, te) \<in> set (Types rs)" for t te
  proof -
    from that assms have dr: "distinct (map fst (Resources te))" by (auto simp: wf_ResourceSet_def)
    show ?thesis
      unfolding length_res_triples canon_te_def
      using sum_canon_gen[OF dr, where g = length and f = canon_re and d = "[]"] by simp
  qed
  have "length (triples (canon rs))
      = sum_list (map (\<lambda>(t, te). length (res_triples (canon_te te))) (Types rs))"
    unfolding length_triples canon_def
    using sum_canon_gen[OF dt, where g = "\<lambda>rt. length (res_triples rt)" and f = canon_te and d = "[]"] by simp
  also have "\<dots> = sum_list (map (\<lambda>(t, te). sum_list (map (\<lambda>(r, re). length (re_Data re)) (Resources te)))
         (Types rs))"
    by (rule arg_cong[where f = sum_list], rule map_cong) (auto simp: r)
  finally show ?thesis by (simp add: numDataEntries_sum)
qed


section \<open>The relocation addresses\<close>

text \<open>
  Claim C4, as amended. When the order caches of the set are coherent, the list of
  relocation addresses has one entry per triple of the set, in the order of the output. The
  payloads are written after the name table, each padded to the alignment; the data record at
  the i-th relocation address holds in its first four bytes the offset at which the payload
  of the i-th triple begins, modulo \<open>2\<^sup>3\<^sup>2\<close>: that offset itself whenever the output is
  shorter than \<open>2\<^sup>3\<^sup>2\<close> bytes.
\<close>

theorem relocation_correctness:
  assumes "wf_ResourceSet rs" "caches_ok rs" "coherent rs"
  shows "\<exists>b r rs1. ResourceSet_write rs = Some (b, r, rs1)
      \<and> length r = numDataEntries rs
      \<and> length (triples (canon rs)) = numDataEntries rs
      \<and> distinct (map triple_key (triples (canon rs)))
      \<and> (\<forall>t i l d. (t, i, l, d) \<in> set (triples (canon rs)) \<longleftrightarrow> ResourceSet_Get rs t i l = Some d)
      \<and> drop (off6 (canon rs)) b
          = concat (map (\<lambda>(t, i, l, d). DataEntry_writeData \<lparr>de_Data = d\<rparr>) (triples (canon rs)))
      \<and> (\<forall>i < length r. case triples (canon rs) ! i of (t, k, l, d) \<Rightarrow>
            r ! i + 16 \<le> length b
          \<and> get_u32 (drop (r ! i) b) = word_of_nat (payload_offsets (canon rs) ! i)
          \<and> payload_offsets (canon rs) ! i + length d \<le> length b
          \<and> take (length d) (drop (payload_offsets (canon rs) ! i) b) = d
          \<and> (length b < 2 ^ 32 \<longrightarrow> unat (get_u32 (drop (r ! i) b)) = payload_offsets (canon rs) ! i))"
proof -
  let ?T = "canon rs"
  let ?b = "encode_tree ?T"
  let ?r = "reloc_tree ?T"
  have n: "length (triples ?T) = numDataEntries rs" by (rule length_triples_canon[OF assms(1)])
  have l6: "drop (off6 ?T) ?b
      = concat (map (\<lambda>(t, i, l, d). DataEntry_writeData \<lparr>de_Data = d\<rparr>) (triples ?T))"
    by (simp add: drop_encode_tree_6 layer6_triples DataEntry_writeData_eq)
  have each: "case triples ?T ! i of (t, k, l, d) \<Rightarrow>
            ?r ! i + 16 \<le> length ?b
          \<and> get_u32 (drop (?r ! i) ?b) = word_of_nat (payload_offsets ?T ! i)
          \<and> payload_offsets ?T ! i + length d \<le> length ?b
          \<and> take (length d) (drop (payload_offsets ?T ! i) ?b) = d
          \<and> (length ?b < 2 ^ 32 \<longrightarrow> unat (get_u32 (drop (?r ! i) ?b)) = payload_offsets ?T ! i)"
    if i: "i < length ?r" for i
  proof -
    from i have i': "i < length (triples ?T)" by simp
    obtain t k l d where e: "triples ?T ! i = (t, k, l, d)" by (cases "triples ?T ! i")
    from data_record_at[OF i' e] obtain rest
      where r: "drop (?r ! i) ?b = writeDataEntry (payload_offsets ?T ! i) (length d) @ rest"
        and rl: "?r ! i + 16 \<le> off5 ?T" by blast
    from payload_at[OF i' e] obtain rest'
      where p: "drop (payload_offsets ?T ! i) ?b = d @ rest'"
        and pl: "payload_offsets ?T ! i + length d \<le> length ?b" by blast
    have "off5 ?T \<le> length ?b" by (simp add: length_encode_tree off6_def)
    with rl have 1: "?r ! i + 16 \<le> length ?b" by simp
    have 2: "get_u32 (drop (?r ! i) ?b) = word_of_nat (payload_offsets ?T ! i)"
      unfolding r by (simp add: writeDataEntry_def)
    have 3: "take (length d) (drop (payload_offsets ?T ! i) ?b) = d" unfolding p by simp
    have 4: "unat (get_u32 (drop (?r ! i) ?b)) = payload_offsets ?T ! i" if "length ?b < 2 ^ 32"
    proof -
      from that pl have "payload_offsets ?T ! i < 2 ^ 32" by simp
      then show ?thesis unfolding 2 by (simp add: unsigned_of_nat take_bit_nat_eq_self)
    qed
    show ?thesis unfolding e prod.case using 1 2 pl 3 4 by blast
  qed
  show ?thesis
  proof (intro exI conjI)
    show "ResourceSet_write rs = Some (?b, ?r, fst (ResourceSet_order rs empty_state))"
      by (rule write_tree[OF assms])
    show "length ?r = numDataEntries rs" using n by simp
    show "length (triples ?T) = numDataEntries rs" by (rule n)
    show "distinct (map triple_key (triples ?T))" by (rule distinct_triples_canon[OF assms(1)])
    show "\<forall>t i l d. (t, i, l, d) \<in> set (triples ?T) \<longleftrightarrow> ResourceSet_Get rs t i l = Some d"
      using Get_canon[OF assms(1)] by blast
    show "drop (off6 ?T) ?b
      = concat (map (\<lambda>(t, i, l, d). DataEntry_writeData \<lparr>de_Data = d\<rparr>) (triples ?T))"
      by (rule l6)
    show "\<forall>i < length ?r. case triples ?T ! i of (t, k, l, d) \<Rightarrow>
            ?r ! i + 16 \<le> length ?b
          \<and> get_u32 (drop (?r ! i) ?b) = word_of_nat (payload_offsets ?T ! i)
          \<and> payload_offsets ?T ! i + length d \<le> length ?b
          \<and> take (length d) (drop (payload_offsets ?T ! i) ?b) = d
          \<and> (length ?b < 2 ^ 32 \<longrightarrow> unat (get_u32 (drop (?r ! i) ?b)) = payload_offsets ?T ! i)"
      using each by blast
  qed
qed

lemma fresh_example_invariants:
  "wf_ResourceSet fresh_example" "caches_ok fresh_example" "coherent fresh_example"
  unfolding fresh_example_eq
  by (simp_all add: wf_ResourceSet_def caches_ok_def coherent_def te_cache_ok_def re_cache_ok_def)

lemma fresh_example_canon:
  "canon fresh_example = [(ID 3, [(ID 1, [(0, [1, 2, 3]), (1033, [4, 5])])])]"
  unfolding fresh_example_eq by (simp add: canon_def canon_te_def canon_re_def)

lemma fresh_example_triples:
  "triples (canon fresh_example) = [(ID 3, ID 1, 0, [1, 2, 3]), (ID 3, ID 1, 1033, [4, 5])]"
  unfolding fresh_example_canon by (simp add: triples_def res_triples_def)

lemma fresh_example_payloads:
  "payload_offsets [(ID 3, [(ID 1, [(0, [1, 2, 3]), (1033, [4, 5])])])] = [112, 120]"
  by code_simp

lemma fresh_example_numDataEntries: "numDataEntries fresh_example = 2"
  unfolding fresh_example_eq by (simp add: numDataEntries_def)

theorem relocation_correctness_witness:
  "wf_ResourceSet fresh_example \<and> caches_ok fresh_example \<and> coherent fresh_example
   \<and> triples (canon fresh_example) = [(ID 3, ID 1, 0, [1, 2, 3]), (ID 3, ID 1, 1033, [4, 5])]
   \<and> (\<exists>b r rs1. ResourceSet_write fresh_example = Some (b, r, rs1)
        \<and> r = [80, 96] \<and> length b = 128
        \<and> unat (get_u32 (drop 96 b)) = 120
        \<and> take 2 (drop 120 b) = [4, 5])"
proof -
  let ?rs = "fresh_example"
  from relocation_correctness [OF fresh_example_invariants]
  obtain b r rs1 where w: "ResourceSet_write ?rs = Some (b, r, rs1)"
    and n: "length r = numDataEntries ?rs"
    and a: "\<forall>i < length r. case triples (canon ?rs) ! i of (t, k, l, d) \<Rightarrow>
            r ! i + 16 \<le> length b
          \<and> get_u32 (drop (r ! i) b) = word_of_nat (payload_offsets (canon ?rs) ! i)
          \<and> payload_offsets (canon ?rs) ! i + length d \<le> length b
          \<and> take (length d) (drop (payload_offsets (canon ?rs) ! i) b) = d
          \<and> (length b < 2 ^ 32 \<longrightarrow> unat (get_u32 (drop (r ! i) b)) = payload_offsets (canon ?rs) ! i)"
    by blast
  from w stale_fresh_write(1) have lb: "length b = 128" and r: "r = [80, 96]" by simp_all
  have p: "payload_offsets (canon ?rs) = [112, 120]"
    unfolding fresh_example_canon by (rule fresh_example_payloads)
  from a[rule_format, of 1] have g: "get_u32 (drop 96 b) = 120"
    and t: "take (length [4, 5 :: byte]) (drop 120 b) = [4, 5]"
    unfolding fresh_example_triples p r lb by simp_all
  have "length [4, 5 :: byte] = 2" by simp
  with t have "take 2 (drop 120 b) = [4, 5]" by (simp only:)
  moreover from g have "unat (get_u32 (drop 96 b)) = 120" by simp
  ultimately have "unat (get_u32 (drop 96 b)) = 120 \<and> take 2 (drop 120 b) = [4, 5]" by blast
  then show ?thesis
    using fresh_example_invariants fresh_example_triples w r lb by simp
qed

section \<open>The padding of the payloads\<close>







section \<open>A payload of \<open>2\<^sup>3\<^sup>2\<close> bytes\<close>

lemma two_payloads_layout:
  fixes d0 d1 :: "byte list"
  defines "T \<equiv> [(ID 3, [(ID 1, [(0, d0), (1, d1)])])]"
  shows "triples T = [(ID 3, ID 1, 0, d0), (ID 3, ID 1, 1, d1)]"
    and "off4 T = 80" and "off6 T = 112"
    and "reloc_tree T = [80, 96]"
    and "payload_offsets T = [112, 112 + alignData (length d0)]"
proof -
  show t: "triples T = [(ID 3, ID 1, 0, d0), (ID 3, ID 1, 1, d1)]"
    by (simp add: T_def triples_def res_triples_def)
  show o4: "off4 T = 80"
    by (simp add: T_def off4_def off3_def off2_def te_sizes_def re_sizes_def all_res_def)
  have "tree_names T = []" by (simp add: T_def tree_names_def)
  then have "namesData (tree_state T) = []"
    by (simp add: tree_state_def empty_state_def alignData_eq Let_def)
  then show o6: "off6 T = 112"
    using o4 by (simp add: off6_def off5_def t del: length_all_data_triples[symmetric])
  show "reloc_tree T = [80, 96]"
    by (simp add: reloc_tree_def o4 t numeral_2_eq_2)
  show "payload_offsets T = [112, 112 + alignData (length d0)]"
    by (simp add: payload_offsets_def o6 t)
qed

lemma big_example_invariants:
  "wf_ResourceSet big_example" "caches_ok big_example" "coherent big_example"
  by (simp_all add: big_example_def wf_ResourceSet_def caches_ok_def coherent_def
      te_cache_ok_def re_cache_ok_def)

lemma big_example_canon:
  "canon big_example = [(ID 3, [(ID 1, [(0, big_payload), (1, [1])])])]"
  by (simp add: big_example_def canon_def canon_te_def canon_re_def)

lemma big_payload_facts:
  "length big_payload = 4294967296" "take (Suc 0) big_payload = [0]"
  "alignData 4294967296 = 4294967296"
  by (simp_all add: big_payload_def big_size_def alignData_eq)

text \<open>
  Claim C4, as the specification states it, at a resource with two languages whose first
  payload has \<open>2\<^sup>3\<^sup>2\<close> bytes: the payload of the second triple begins at offset
  4294967408 of the output, and the data record at the second relocation address, whose
  size field is the 1 of that payload, holds 112 in its first four bytes, the offset at
  which the first payload begins.
\<close>

theorem relocation_overflow_counterexample:
  "ResourceSet_Get big_example (ID 3) (ID 1) 1 = Some [1]
   \<and> map_option (\<lambda>(b, r, rs1).
        (r, unat (get_u32 (drop 96 b)), unat (get_u32 (drop 4 (drop 96 b))),
         take 1 (drop 112 b), take 1 (drop 4294967408 b), length b))
       (ResourceSet_write big_example)
     = Some ([80, 96], 112, 1, [0], [1], 4294967416)"
proof -
  let ?T = "[(ID 3, [(ID 1, [(0, big_payload), (1, [1::byte])])])]"
  let ?b = "encode_tree ?T"
  note lay = two_payloads_layout[of big_payload "[1]"]
  have po: "payload_offsets ?T = [112, 4294967408]"
    by (simp add: lay(5) big_payload_facts)
  have i0: "0 < length (triples ?T)" "triples ?T ! 0 = (ID 3, ID 1, 0, big_payload)"
    and i1: "1 < length (triples ?T)" "triples ?T ! 1 = (ID 3, ID 1, 1, [1])"
    by (simp_all add: lay(1))
  from data_record_at(1)[OF i1] obtain rest
    where "drop (reloc_tree ?T ! 1) ?b = writeDataEntry (payload_offsets ?T ! 1) (length [1::byte]) @ rest"
    by blast
  then have r: "drop 96 ?b = writeDataEntry 4294967408 1 @ rest"
    by (simp add: lay(4) po)
  have 1: "unat (get_u32 (drop 96 ?b)) = 112"
    unfolding r by (simp add: writeDataEntry_def unsigned_of_nat take_bit_eq_mod)
  have 2: "unat (get_u32 (drop 4 (drop 96 ?b))) = 1"
    unfolding r by (simp add: writeDataEntry_def le32_def)
  from payload_at(1)[OF i0] obtain rest0
    where "drop (payload_offsets ?T ! 0) ?b = big_payload @ rest0" by blast
  then have "drop 112 ?b = big_payload @ rest0" by (simp add: po)
  then have 3: "take 1 (drop 112 ?b) = [0]" by (simp add: big_payload_facts)
  from payload_at(1)[OF i1] obtain rest1
    where "drop (payload_offsets ?T ! 1) ?b = [1] @ rest1" by blast
  then have "drop 4294967408 ?b = [1] @ rest1" by (simp add: po)
  then have 4: "take 1 (drop 4294967408 ?b) = [1]" by simp
  have 5: "length ?b = 4294967416"
    by (simp add: length_encode_tree length_layer6 lay(1,3) big_payload_facts alignData_eq)
  have g: "ResourceSet_Get big_example (ID 3) (ID 1) 1 = Some [1]"
    by (simp add: big_example_def ResourceSet_Get_def)
  show ?thesis
    unfolding write_tree[OF big_example_invariants] big_example_canon
    using g 1 2 3 4 5 by (simp add: lay(4))
qed

section \<open>UTF-16 names\<close>







section \<open>Reading at a known position\<close>




lemma get_u32_le32' [simp]: "get_u32 (le32 w) = w"
  using get_u32_le32[of w "[]"] by simp



section \<open>The name table\<close>







section \<open>The flag bit of a directory entry\<close>

lemma high_bit: "(0x80000000 :: uint32) = 2 ^ 31"
  by simp





lemma ucast_id_word: "(word_of_nat (unat (i :: uint16)) :: uint32) = ucast i"
  by simp



section \<open>Reading a directory\<close>







section \<open>Nested and flat positions\<close>






section \<open>The directories of the closed form, where the decoder looks for them\<close>






section \<open>The walk of the decoder over the closed form\<close>





lemma writeDataEntry_nonempty: "writeDataEntry off n \<noteq> []"
  by (simp add: writeDataEntry_def le32_def)













section \<open>Sets built by calls of Set\<close>







lemma Get_empty [simp]: "ResourceSet_Get empty_ResourceSet t k l = None"
  by (simp add: ResourceSet_Get_def empty_ResourceSet_def)










section \<open>The round trip\<close>

















end
